theory Spec2Isabelle
  imports
    Complex_Main
    "HOL-Library.Multiset"
    "HOL-Library.Char_ord"
    "HOL-Library.List_Lexorder"
    "HOL-Library.Log_Nat"
    "HOL-Library.Product_Lexorder"
begin

section \<open>JavaScript values used by the options pipeline\<close>

text \<open>
  A JavaScript number is NaN, one of the two infinities or a finite value. Finite values
  are rationals (every double is one). Comparison, \<open>isNaN\<close>, \<open>Math.max\<close>,
  \<open>Math.round\<close> and the truthiness test are exact on doubles and are modelled exactly;
  multiplication and division round their exact result to the nearest double
  (\<open>to_double\<close>). The two zeros are identified (\<open>-0 === 0\<close> holds in JavaScript).
\<close>

datatype jsnum = NaN | PosInf | NegInf | Fin rat

definition isNaN :: "jsnum \<Rightarrow> bool" where
  "isNaN x = (x = NaN)"

fun js_less :: "jsnum \<Rightarrow> jsnum \<Rightarrow> bool" where
  "js_less (Fin a) (Fin b) = (a < b)"
| "js_less NaN _ = False"
| "js_less _ NaN = False"
| "js_less NegInf NegInf = False"
| "js_less NegInf _ = True"
| "js_less _ NegInf = False"
| "js_less PosInf _ = False"
| "js_less (Fin a) PosInf = True"

definition js_strict_eq :: "jsnum \<Rightarrow> jsnum \<Rightarrow> bool" where
  "js_strict_eq a b = (a \<noteq> NaN \<and> a = b)"

definition js_le :: "jsnum \<Rightarrow> jsnum \<Rightarrow> bool" where
  "js_le a b = (js_less a b \<or> js_strict_eq a b)"

text \<open>
  \<open>Number(v)\<close> for a field typed \<open>number\<close>: the value itself, and NaN when the
  field is absent (\<open>undefined\<close>, modelled by \<open>None\<close>).
\<close>

definition js_Number :: "jsnum option \<Rightarrow> jsnum" where
  "js_Number v = (case v of None \<Rightarrow> NaN | Some x \<Rightarrow> x)"

text \<open>\<open>x || 0\<close>: NaN and zero are falsy.\<close>

definition or_zero :: "jsnum \<Rightarrow> jsnum" where
  "or_zero x = (if x = NaN \<or> x = Fin 0 then Fin 0 else x)"

definition Math_max :: "jsnum \<Rightarrow> jsnum \<Rightarrow> jsnum" where
  "Math_max a b = (if a = NaN \<or> b = NaN then NaN else if js_less a b then b else a)"

text \<open>\<open>Math.round\<close>: nearest integer, ties towards \<open>+\<infinity>\<close>.\<close>

fun Math_round :: "jsnum \<Rightarrow> jsnum" where
  "Math_round (Fin x) = Fin (of_int \<lfloor>x + 1 / 2\<rfloor>)"
| "Math_round v = v"

subsection \<open>Rounding to binary64\<close>

text \<open>Nearest integer, ties to the even one.\<close>

definition round_half_even :: "rat \<Rightarrow> int" where
  "round_half_even y =
     (let f = \<lfloor>y\<rfloor>; r = y - of_int f in
      if r < 1 / 2 then f
      else if 1 / 2 < r then f + 1
      else if even f then f else f + 1)"

text \<open>The exponent \<open>e\<close> with \<open>2\<^sup>e \<le> x < 2\<^sup>e\<^sup>+\<^sup>1\<close>, for a positive \<open>x\<close>.\<close>

definition binade :: "rat \<Rightarrow> int" where
  "binade x =
     (case quotient_of x of
        (p, q) \<Rightarrow>
          (let e0 = int (floorlog 2 (nat p)) - int (floorlog 2 (nat q)) in
           if 2 powi e0 \<le> x then e0 else e0 - 1))"

text \<open>
  IEEE 754 binary64, round to nearest, ties to even: 53 significant bits, subnormals
  below \<open>2\<^sup>-\<^sup>1\<^sup>0\<^sup>2\<^sup>2\<close>, overflow to an infinity from \<open>2\<^sup>1\<^sup>0\<^sup>2\<^sup>4\<close> on.
\<close>

definition to_double :: "rat \<Rightarrow> jsnum" where
  "to_double x =
     (if x = 0 then Fin 0
      else
        (let e = max (binade \<bar>x\<bar>) (- 1022);
             ulp = 2 powi (e - 52);
             r = of_int (round_half_even (x / ulp)) * ulp
         in if 2 ^ 1024 \<le> \<bar>r\<bar> then (if 0 < x then PosInf else NegInf) else Fin r))"

fun js_mul :: "jsnum \<Rightarrow> jsnum \<Rightarrow> jsnum" where
  "js_mul (Fin a) (Fin b) = to_double (a * b)"
| "js_mul NaN _ = NaN"
| "js_mul _ NaN = NaN"
| "js_mul PosInf b = (if js_less (Fin 0) b then PosInf else if js_less b (Fin 0) then NegInf else NaN)"
| "js_mul NegInf b = (if js_less (Fin 0) b then NegInf else if js_less b (Fin 0) then PosInf else NaN)"
| "js_mul (Fin a) PosInf = (if 0 < a then PosInf else if a < 0 then NegInf else NaN)"
| "js_mul (Fin a) NegInf = (if 0 < a then NegInf else if a < 0 then PosInf else NaN)"

text \<open>Division; a zero divisor is taken as \<open>+0\<close>.\<close>

fun js_div :: "jsnum \<Rightarrow> jsnum \<Rightarrow> jsnum" where
  "js_div (Fin a) (Fin b) =
     (if b = 0 then (if a = 0 then NaN else if 0 < a then PosInf else NegInf)
      else to_double (a / b))"
| "js_div NaN _ = NaN"
| "js_div _ NaN = NaN"
| "js_div (Fin a) _ = Fin 0"
| "js_div PosInf (Fin b) = (if 0 \<le> b then PosInf else NegInf)"
| "js_div NegInf (Fin b) = (if 0 \<le> b then NegInf else PosInf)"
| "js_div _ _ = NaN"

subsection \<open>Strings\<close>

text \<open>
  Strings are lists of code units; the model covers the code units below 256. \<open>trim\<close>
  removes the white space and line terminators of that range. \<open>toLowerCase\<close> and
  \<open>toUpperCase\<close> map the letters of that range, ASCII and Latin-1: the capital of
  U+00DF is the two units \<open>SS\<close>; the capitals of U+00B5 and U+00FF lie above 255, and
  these two units are left as they are.
\<close>

definition is_js_whitespace :: "char \<Rightarrow> bool" where
  "is_js_whitespace c =
     (c \<in> set [CHR 0x09, CHR 0x0A, CHR 0x0B, CHR 0x0C, CHR 0x0D, CHR 0x20, CHR 0xA0])"

definition trim :: "string \<Rightarrow> string" where
  "trim s = rev (dropWhile is_js_whitespace (rev (dropWhile is_js_whitespace s)))"

definition to_upper_units :: "char \<Rightarrow> string" where
  "to_upper_units c =
     (if (CHR ''a'' \<le> c \<and> c \<le> CHR ''z'') \<or> (CHR 0xE0 \<le> c \<and> c \<le> CHR 0xFE \<and> c \<noteq> CHR 0xF7)
      then [char_of (of_char c - (32::nat))]
      else if c = CHR 0xDF then ''SS''
      else [c])"

definition to_lower_char :: "char \<Rightarrow> char" where
  "to_lower_char c =
     (if (CHR ''A'' \<le> c \<and> c \<le> CHR ''Z'') \<or> (CHR 0xC0 \<le> c \<and> c \<le> CHR 0xDE \<and> c \<noteq> CHR 0xD7)
      then char_of (of_char c + (32::nat))
      else c)"

definition toUpperCase :: "string \<Rightarrow> string" where
  "toUpperCase s = concat (map to_upper_units s)"

definition toLowerCase :: "string \<Rightarrow> string" where
  "toLowerCase s = map to_lower_char s"

text \<open>
  A thrown value: an \<open>Error\<close> object with its message, or any other value, given by
  its \<open>String(...)\<close> rendering.
\<close>

datatype 'm thrown = ErrorObj 'm | NonError 'm

section \<open>Validator (utils.ts)\<close>

datatype ProcessedCallPutType = call | put

record RawOptionContract =
  raw_date :: "string option"
  raw_act_symbol :: "string option"
  raw_expiration :: "string option"
  raw_strike :: "jsnum option"
  raw_call_put :: "string option"
  raw_bid :: "jsnum option"
  raw_ask :: "jsnum option"
  raw_vol :: "jsnum option"
  raw_delta :: "jsnum option"
  raw_gamma :: "jsnum option"
  raw_theta :: "jsnum option"
  raw_vega :: "jsnum option"
  raw_rho :: "jsnum option"

record ProcessedOptionContract =
  date :: string
  symbol :: string
  expiration :: string
  strike :: jsnum
  type :: ProcessedCallPutType
  bid :: jsnum
  ask :: jsnum
  volume :: jsnum
  delta :: jsnum
  gamma :: jsnum
  theta :: jsnum
  vega :: jsnum
  rho :: jsnum

text \<open>The error and warning strings of \<open>validateContract\<close>, with their interpolated values.\<close>

datatype validation_error =
    MissingCriticalFields
  | InvalidStrikePrice "jsnum option"
  | InvalidBid "jsnum option"
  | InvalidAsk "jsnum option"
  | NoBidOrAskPrice
  | InvalidDateFormat
  | InvalidCallPutType "string option"

datatype validation_warning = UnusualSpread jsnum jsnum

record ValidationResult =
  isValid :: bool
  errors :: "validation_error list"
  warnings :: "validation_warning list"
  cleanedData :: "ProcessedOptionContract option"

text \<open>
  \<open>normalizeCallPutType\<close>. On an absent value \<open>type.toLowerCase()\<close> raises a
  \<open>TypeError\<close>, which the caller's \<open>catch\<close> treats like the explicit throw.
\<close>

definition normalizeCallPutType :: "string option \<Rightarrow> string option thrown + ProcessedCallPutType" where
  "normalizeCallPutType t =
     (case t of
        None \<Rightarrow> Inl (ErrorObj None)
      | Some s \<Rightarrow>
          (let normalized = trim (toLowerCase s) in
           if normalized = ''c'' \<or> normalized = ''call'' then Inr call
           else if normalized = ''p'' \<or> normalized = ''put'' then Inr put
           else Inl (ErrorObj (Some s))))"

subsection \<open>The calendar-date predicate\<close>

definition is_digit :: "char \<Rightarrow> bool" where
  "is_digit c = (CHR ''0'' \<le> c \<and> c \<le> CHR ''9'')"

text \<open>The regular expression \<open>/^\d{4}-\d{2}-\d{2}$/\<close>.\<close>

fun regex_test_date :: "string \<Rightarrow> bool" where
  "regex_test_date [y1, y2, y3, y4, h1, m1, m2, h2, d1, d2] =
     (is_digit y1 \<and> is_digit y2 \<and> is_digit y3 \<and> is_digit y4 \<and> h1 = CHR ''-'' \<and>
      is_digit m1 \<and> is_digit m2 \<and> h2 = CHR ''-'' \<and> is_digit d1 \<and> is_digit d2)"
| "regex_test_date _ = False"

text \<open>\<open>dateString.split('-')\<close>.\<close>

fun split_on :: "char \<Rightarrow> string \<Rightarrow> string list" where
  "split_on sep [] = [[]]"
| "split_on sep (c # cs) =
     (if c = sep then [] # split_on sep cs
      else (case split_on sep cs of p # ps \<Rightarrow> (c # p) # ps | [] \<Rightarrow> [[c]]))"

text \<open>
  Unary \<open>+\<close> on a string of decimal digits (the only strings that reach it after the
  regular expression): its value; the empty string gives 0; \<open>None\<close> stands for NaN.
\<close>

definition to_number :: "string \<Rightarrow> int option" where
  "to_number s =
     (if list_all is_digit s
      then Some (foldl (\<lambda>acc c. 10 * acc + (int (of_char c) - 48)) 0 s)
      else None)"

definition is_leap_year :: "int \<Rightarrow> bool" where
  "is_leap_year y = (y mod 4 = 0 \<and> (y mod 100 \<noteq> 0 \<or> y mod 400 = 0))"

text \<open>Days of the month with index \<open>m\<close> (0 = January) in year \<open>y\<close>.\<close>

definition days_in_month :: "int \<Rightarrow> int \<Rightarrow> int" where
  "days_in_month y m =
     (if m = 1 then (if is_leap_year y then 29 else 28)
      else if m = 3 \<or> m = 5 \<or> m = 8 \<or> m = 10 then 30 else 31)"

text \<open>
  \<open>new Date(year, monthIndex, day)\<close> followed by \<open>getFullYear\<close>, \<open>getMonth\<close> and
  \<open>getDate\<close>, for a month index in 0..11 and a day in 1..31 (the guard before the call
  admits nothing else) and a year of at least 100: a day beyond the end of the month
  rolls over into the following month. Local-time irregularities of the host's time zone
  are not modelled.
\<close>

definition js_Date_fields :: "int \<Rightarrow> int \<Rightarrow> int \<Rightarrow> int \<times> int \<times> int" where
  "js_Date_fields y m d =
     (if d \<le> days_in_month y m then (y, m, d)
      else if m = 11 then (y + 1, 0, d - days_in_month y m)
      else (y, m + 1, d - days_in_month y m))"

definition isValidDate :: "string \<Rightarrow> bool" where
  "isValidDate dateString =
     (if dateString = [] then False
      else if \<not> regex_test_date dateString then False
      else (case split_on CHR ''-'' dateString of
              [p0, p1, p2] \<Rightarrow>
                (case (to_number p0, to_number p1, to_number p2) of
                   (Some year, Some month, Some day) \<Rightarrow>
                     if year < 1000 \<or> month < 1 \<or> month > 12 \<or> day < 1 \<or> day > 31 then False
                     else (case js_Date_fields year (month - 1) day of
                             (fy, fm, fd) \<Rightarrow> fy = year \<and> fm = month - 1 \<and> fd = day)
                 | _ \<Rightarrow> False)
            | _ \<Rightarrow> False))"

subsection \<open>validateContract\<close>

definition DECIMAL_PRECISION :: nat where
  "DECIMAL_PRECISION = 4"

definition DECIMAL_MULTIPLIER :: jsnum where
  "DECIMAL_MULTIPLIER = Fin (10 ^ DECIMAL_PRECISION)"

text \<open>\<open>Math.round(v * DECIMAL_MULTIPLIER) / DECIMAL_MULTIPLIER\<close>.\<close>

definition round_precision :: "jsnum \<Rightarrow> jsnum" where
  "round_precision v = js_div (Math_round (js_mul v DECIMAL_MULTIPLIER)) DECIMAL_MULTIPLIER"

definition validateContract :: "RawOptionContract \<Rightarrow> ValidationResult" where
  "validateContract raw =
     (case (raw_act_symbol raw, raw_date raw, raw_expiration raw) of
        (Some act, Some d, Some e) \<Rightarrow>
          if trim act = [] \<or> d = [] \<or> e = []
          then \<lparr>isValid = False, errors = [MissingCriticalFields], warnings = [], cleanedData = None\<rparr>
          else
            (let strike = js_Number (raw_strike raw);
                 bid = js_Number (raw_bid raw);
                 ask = js_Number (raw_ask raw);
                 errs =
                   (if isNaN strike \<or> js_le strike (Fin 0) then [InvalidStrikePrice (raw_strike raw)] else []) @
                   (if isNaN bid \<or> js_less bid (Fin 0) then [InvalidBid (raw_bid raw)] else []) @
                   (if isNaN ask \<or> js_less ask (Fin 0) then [InvalidAsk (raw_ask raw)] else []);
                 warns =
                   (if js_less (Fin 0) bid \<and> js_less (Fin 0) ask \<and> js_le ask bid
                    then [UnusualSpread bid ask] else []);
                 errs =
                   errs @ (if js_strict_eq bid (Fin 0) \<and> js_strict_eq ask (Fin 0) then [NoBidOrAskPrice] else [])
             in if errs \<noteq> []
                then \<lparr>isValid = False, errors = errs, warnings = warns, cleanedData = None\<rparr>
                else if \<not> isValidDate d \<or> \<not> isValidDate e
                then \<lparr>isValid = False, errors = errs @ [InvalidDateFormat], warnings = warns,
                       cleanedData = None\<rparr>
                else (case normalizeCallPutType (raw_call_put raw) of
                        Inl _ \<Rightarrow>
                          \<lparr>isValid = False, errors = errs @ [InvalidCallPutType (raw_call_put raw)],
                           warnings = warns, cleanedData = None\<rparr>
                      | Inr t \<Rightarrow>
                          \<lparr>isValid = True, errors = errs, warnings = warns,
                           cleanedData = Some
                             \<lparr>date = trim d,
                              symbol = toUpperCase (trim act),
                              expiration = trim e,
                              strike = round_precision strike,
                              type = t,
                              bid = round_precision bid,
                              ask = round_precision ask,
                              volume = Math_max (Fin 0) (or_zero (js_Number (raw_vol raw))),
                              delta = round_precision (or_zero (js_Number (raw_delta raw))),
                              gamma = round_precision (or_zero (js_Number (raw_gamma raw))),
                              theta = round_precision (or_zero (js_Number (raw_theta raw))),
                              vega = round_precision (or_zero (js_Number (raw_vega raw))),
                              rho = round_precision (or_zero (js_Number (raw_rho raw)))\<rparr>\<rparr>))
      | _ \<Rightarrow> \<lparr>isValid = False, errors = [MissingCriticalFields], warnings = [], cleanedData = None\<rparr>)"

subsection \<open>The validation rules as the specification words them\<close>

text \<open>The critical-field presence gate: symbol non-empty after trimming, both dates non-empty.\<close>

definition passes_presence_gate :: "RawOptionContract \<Rightarrow> bool" where
  "passes_presence_gate raw =
     (case (raw_act_symbol raw, raw_date raw, raw_expiration raw) of
        (Some a, Some d, Some e) \<Rightarrow> trim a \<noteq> [] \<and> d \<noteq> [] \<and> e \<noteq> []
      | _ \<Rightarrow> False)"

text \<open>
  A numeric field is malformed when it is absent or not a number, or violates its bound:
  strike must be \<open>> 0\<close>, bid and ask must be \<open>\<ge> 0\<close>.
\<close>

definition strike_malformed :: "RawOptionContract \<Rightarrow> bool" where
  "strike_malformed raw =
     (case raw_strike raw of Some (Fin x) \<Rightarrow> x \<le> 0 | Some PosInf \<Rightarrow> False | _ \<Rightarrow> True)"

definition bid_malformed :: "RawOptionContract \<Rightarrow> bool" where
  "bid_malformed raw =
     (case raw_bid raw of Some (Fin x) \<Rightarrow> x < 0 | Some PosInf \<Rightarrow> False | _ \<Rightarrow> True)"

definition ask_malformed :: "RawOptionContract \<Rightarrow> bool" where
  "ask_malformed raw =
     (case raw_ask raw of Some (Fin x) \<Rightarrow> x < 0 | Some PosInf \<Rightarrow> False | _ \<Rightarrow> True)"

fun is_strike_error :: "validation_error \<Rightarrow> bool" where
  "is_strike_error (InvalidStrikePrice _) = True"
| "is_strike_error _ = False"

fun is_bid_error :: "validation_error \<Rightarrow> bool" where
  "is_bid_error (InvalidBid _) = True"
| "is_bid_error _ = False"

fun is_ask_error :: "validation_error \<Rightarrow> bool" where
  "is_ask_error (InvalidAsk _) = True"
| "is_ask_error _ = False"

definition numeric_errors :: "RawOptionContract \<Rightarrow> validation_error list" where
  "numeric_errors raw =
     (if strike_malformed raw then [InvalidStrikePrice (raw_strike raw)] else []) @
     (if bid_malformed raw then [InvalidBid (raw_bid raw)] else []) @
     (if ask_malformed raw then [InvalidAsk (raw_ask raw)] else [])"

definition is_nonneg_integer :: "jsnum \<Rightarrow> bool" where
  "is_nonneg_integer v = (case v of Fin x \<Rightarrow> 0 \<le> x \<and> of_int \<lfloor>x\<rfloor> = x | _ \<Rightarrow> False)"

text \<open>A well-formed row whose volume is 3.5.\<close>

definition fractional_volume_row :: RawOptionContract where
  "fractional_volume_row =
     \<lparr>raw_date = Some ''2024-01-19'', raw_act_symbol = Some ''AAPL'',
      raw_expiration = Some ''2024-02-16'', raw_strike = Some (Fin 150),
      raw_call_put = Some ''C'', raw_bid = Some (Fin 1), raw_ask = Some (Fin 2),
      raw_vol = Some (Fin (7 / 2)), raw_delta = None, raw_gamma = None, raw_theta = None,
      raw_vega = None, raw_rho = None\<rparr>"

text \<open>The same row with all three price fields malformed.\<close>

definition malformed_numbers_row :: RawOptionContract where
  "malformed_numbers_row =
     fractional_volume_row\<lparr>raw_strike := Some NaN, raw_bid := None, raw_ask := Some (Fin (- 1))\<rparr>"

text \<open>A numeric value is within range when it is not finite or at most \<open>10\<^sup>1\<^sup>1\<close> in magnitude.\<close>

definition within_range :: "jsnum \<Rightarrow> bool" where
  "within_range v = (case v of Fin x \<Rightarrow> \<bar>x\<bar> \<le> 10 ^ 11 | _ \<Rightarrow> True)"

definition numeric_fields_within_range :: "RawOptionContract \<Rightarrow> bool" where
  "numeric_fields_within_range raw =
     (within_range (js_Number (raw_strike raw)) \<and> within_range (js_Number (raw_bid raw)) \<and>
      within_range (js_Number (raw_ask raw)) \<and> within_range (js_Number (raw_delta raw)) \<and>
      within_range (js_Number (raw_gamma raw)) \<and> within_range (js_Number (raw_theta raw)) \<and>
      within_range (js_Number (raw_vega raw)) \<and> within_range (js_Number (raw_rho raw)))"

text \<open>
  A well-formed row whose strike is the double nearest to 281969766763.32117, that is
  \<open>2309896329325127 / 2\<^sup>1\<^sup>3\<close>.
\<close>

definition large_strike_row :: RawOptionContract where
  "large_strike_row = fractional_volume_row\<lparr>raw_strike := Some (Fin (2309896329325127 / 8192))\<rparr>"

text \<open>The fixed-width pattern and the three fields of a date string, read off by position.\<close>

definition digit_value :: "char \<Rightarrow> int" where
  "digit_value c = int (of_char c) - 48"

definition iso_date_pattern :: "string \<Rightarrow> bool" where
  "iso_date_pattern s =
     (length s = 10 \<and> list_all is_digit (take 4 s) \<and> s ! 4 = CHR ''-'' \<and>
      list_all is_digit (take 2 (drop 5 s)) \<and> s ! 7 = CHR ''-'' \<and> list_all is_digit (drop 8 s))"

definition year_field :: "string \<Rightarrow> int" where
  "year_field s =
     1000 * digit_value (s ! 0) + 100 * digit_value (s ! 1) + 10 * digit_value (s ! 2) +
     digit_value (s ! 3)"

definition month_field :: "string \<Rightarrow> int" where
  "month_field s = 10 * digit_value (s ! 5) + digit_value (s ! 6)"

definition day_field :: "string \<Rightarrow> int" where
  "day_field s = 10 * digit_value (s ! 8) + digit_value (s ! 9)"

section \<open>Partitioner (utils.ts)\<close>

text \<open>
  A JavaScript \<open>Map\<close> keeps its keys in insertion order: an association list with
  distinct keys, a new key going to the end.
\<close>

type_synonym PartitionMap = "(string \<times> ProcessedOptionContract list) list"

text \<open>
  One iteration of the first loop of \<open>groupBySymbol\<close>: look the symbol up, create an
  empty group at the end of the map when there is none, push the contract onto the group.
\<close>

fun push_contract :: "PartitionMap \<Rightarrow> ProcessedOptionContract \<Rightarrow> PartitionMap" where
  "push_contract [] c = [(symbol c, [c])]"
| "push_contract ((k, cs) # grouped) c =
     (if k = symbol c then (k, cs @ [c]) # grouped else (k, cs) # push_contract grouped c)"

definition group_pass :: "ProcessedOptionContract list \<Rightarrow> PartitionMap" where
  "group_pass contracts = foldl push_contract [] contracts"

text \<open>
  Subtraction as the comparator uses it. Only the sign of the result is observed, and the
  rounded difference of two doubles has the sign of the exact difference, so the finite
  case is the exact difference.
\<close>

fun js_sub :: "jsnum \<Rightarrow> jsnum \<Rightarrow> jsnum" where
  "js_sub (Fin a) (Fin b) = Fin (a - b)"
| "js_sub NaN _ = NaN"
| "js_sub _ NaN = NaN"
| "js_sub PosInf PosInf = NaN"
| "js_sub NegInf NegInf = NaN"
| "js_sub PosInf _ = PosInf"
| "js_sub NegInf _ = NegInf"
| "js_sub (Fin a) PosInf = NegInf"
| "js_sub (Fin a) NegInf = PosInf"

definition compareContracts :: "ProcessedOptionContract \<Rightarrow> ProcessedOptionContract \<Rightarrow> jsnum" where
  "compareContracts a b =
     (if expiration a \<noteq> expiration b then (if expiration a < expiration b then Fin (- 1) else Fin 1)
      else if type a \<noteq> type b then (if type a = call then Fin (- 1) else Fin 1)
      else js_sub (strike a) (strike b))"

text \<open>
  \<open>Array.prototype.sort(comparefn)\<close>: a stable sort (ECMAScript 2019 on), given here
  as insertion from the right. An element goes behind another only when the comparator
  returns a positive number for the pair; NaN counts as zero. For a comparator that is
  not a consistent ordering the language leaves the result to the implementation.
\<close>

fun insert_sorted :: "('a \<Rightarrow> 'a \<Rightarrow> jsnum) \<Rightarrow> 'a \<Rightarrow> 'a list \<Rightarrow> 'a list" where
  "insert_sorted comparefn x [] = [x]"
| "insert_sorted comparefn x (y # ys) =
     (if js_less (Fin 0) (comparefn x y) then y # insert_sorted comparefn x ys else x # y # ys)"

definition array_sort :: "('a \<Rightarrow> 'a \<Rightarrow> jsnum) \<Rightarrow> 'a list \<Rightarrow> 'a list" where
  "array_sort comparefn xs = foldr (insert_sorted comparefn) xs []"

definition groupBySymbol :: "ProcessedOptionContract list \<Rightarrow> PartitionMap" where
  "groupBySymbol contracts =
     map (\<lambda>(k, cs). (k, if length cs > 1 then array_sort compareContracts cs else cs))
       (group_pass contracts)"

subsection \<open>The partition order as the specification words it\<close>

text \<open>Expiration ascending, then calls before puts, then strike ascending.\<close>

definition partition_order :: "ProcessedOptionContract \<Rightarrow> ProcessedOptionContract \<Rightarrow> bool" where
  "partition_order a b =
     (expiration a < expiration b \<or>
      expiration a = expiration b \<and>
        (type a = call \<and> type b = put \<or> type a = type b \<and> js_le (strike a) (strike b)))"

text \<open>The three fields the comparator looks at.\<close>

definition sort_fields :: "ProcessedOptionContract \<Rightarrow> string \<times> ProcessedCallPutType \<times> jsnum" where
  "sort_fields c = (expiration c, type c, strike c)"

text \<open>The same fields in a linearly ordered type, for strikes other than NaN.\<close>

fun strike_rank :: "jsnum \<Rightarrow> nat \<times> rat" where
  "strike_rank NegInf = (0, 0)"
| "strike_rank (Fin x) = (1, x)"
| "strike_rank PosInf = (2, 0)"
| "strike_rank NaN = (3, 0)"

definition sort_rank :: "ProcessedOptionContract \<Rightarrow> string \<times> nat \<times> nat \<times> rat" where
  "sort_rank c = (expiration c, (if type c = call then 0 else 1), strike_rank (strike c))"

definition all_groups :: "PartitionMap \<Rightarrow> ProcessedOptionContract multiset" where
  "all_groups pm = sum_list (map (\<lambda>(k, cs). mset cs) pm)"

text \<open>Two records of one symbol that differ only in their bid.\<close>

definition tie_a :: ProcessedOptionContract where
  "tie_a = \<lparr>date = ''2024-01-19'', symbol = ''AAPL'', expiration = ''2024-02-16'', strike = Fin 150,
            type = call, bid = Fin 1, ask = Fin 2, volume = Fin 10, delta = Fin 0, gamma = Fin 0,
            theta = Fin 0, vega = Fin 0, rho = Fin 0\<rparr>"

definition tie_b :: ProcessedOptionContract where
  "tie_b = tie_a\<lparr>bid := Fin (3 / 2)\<rparr>"

text \<open>Two records compare equal when the comparator's result is neither positive nor negative.\<close>

definition compares_equal :: "ProcessedOptionContract \<Rightarrow> ProcessedOptionContract \<Rightarrow> bool" where
  "compares_equal a b =
     (\<not> js_less (Fin 0) (compareContracts a b) \<and> \<not> js_less (compareContracts a b) (Fin 0))"

text \<open>A third record of the same symbol, with a higher strike.\<close>

definition tie_c :: ProcessedOptionContract where
  "tie_c = tie_a\<lparr>strike := Fin 155\<rparr>"

section \<open>Retry and the sink writer (utils.ts)\<close>

subsection \<open>Paths\<close>

text \<open>
  Paths are strings. \<open>join\<close> and \<open>dirname\<close> are the functions of Node's \<open>path\<close>
  module on a POSIX host. \<open>join\<close> puts a slash between its non-empty arguments and
  normalises the result: empty segments and \<open>.\<close> are dropped, \<open>..\<close> takes back the
  segment before it (or stays, in a relative path with nothing to take back), a trailing
  slash is kept. \<open>dirname\<close> cuts the last segment and the slashes before it.
\<close>

fun normalizeString :: "bool \<Rightarrow> string list \<Rightarrow> string list \<Rightarrow> string list" where
  "normalizeString allowAboveRoot res [] = rev res"
| "normalizeString allowAboveRoot res (seg # segs) =
     (if seg = [] \<or> seg = ''.'' then normalizeString allowAboveRoot res segs
      else if seg = ''..'' then
        (case res of
           [] \<Rightarrow> normalizeString allowAboveRoot (if allowAboveRoot then [''..''] else []) segs
         | lastSegment # earlier \<Rightarrow>
             if lastSegment \<noteq> ''..'' then normalizeString allowAboveRoot earlier segs
             else normalizeString allowAboveRoot (if allowAboveRoot then ''..'' # res else res) segs)
      else normalizeString allowAboveRoot (seg # res) segs)"

fun join_segments :: "string list \<Rightarrow> string" where
  "join_segments [] = []"
| "join_segments [seg] = seg"
| "join_segments (seg # segs) = seg @ ''/'' @ join_segments segs"

definition normalize_path :: "string \<Rightarrow> string" where
  "normalize_path p =
     (if p = [] then ''.''
      else
        (let isAbsolute = (hd p = CHR ''/'');
             trailingSeparator = (last p = CHR ''/'');
             np = join_segments (normalizeString (\<not> isAbsolute) [] (split_on CHR ''/'' p))
         in if np = [] then (if isAbsolute then ''/'' else if trailingSeparator then ''./'' else ''.'')
            else (if isAbsolute then ''/'' else []) @ np @ (if trailingSeparator then ''/'' else [])))"

definition join :: "string list \<Rightarrow> string" where
  "join args =
     (let joined = join_segments (filter (\<lambda>arg. arg \<noteq> []) args) in
      if joined = [] then ''.'' else normalize_path joined)"

definition dirname :: "string \<Rightarrow> string" where
  "dirname p =
     (case p of
        [] \<Rightarrow> ''.''
      | c # rest \<Rightarrow>
          (let hasRoot = (c = CHR ''/'');
               upToEnd = dropWhile (\<lambda>x. x \<noteq> CHR ''/'') (dropWhile (\<lambda>x. x = CHR ''/'') (rev rest))
           in if upToEnd = [] then (if hasRoot then ''/'' else ''.'')
              else if hasRoot \<and> length upToEnd = 1 then ''//''
              else c # rev (tl upToEnd)))"

text \<open>\<open>CONFIG.OUTPUT_FILES\<close>.\<close>

definition SYMBOLS :: string where
  "SYMBOLS = ''symbols.json''"

definition METADATA :: string where
  "METADATA = ''metadata.json''"

definition SYMBOLS_DIR :: string where
  "SYMBOLS_DIR = ''symbols''"

text \<open>The messages the pipeline builds, with their interpolated values.\<close>

datatype message =
    Text string
  | FileTooLarge nat nat
  | FailedToWriteFile string message
  | FailedToCreateDirectory string message
  | SymbolProcessingFailed string message
  | FailedToProcessSymbol string "message thrown"

text \<open>\<open>error instanceof Error ? error.message : String(error)\<close>.\<close>

fun error_text :: "message thrown \<Rightarrow> message" where
  "error_text (ErrorObj m) = m"
| "error_text (NonError m) = m"

text \<open>\<open>error instanceof Error ? error : new Error(String(error))\<close>.\<close>

fun to_Error :: "message thrown \<Rightarrow> message thrown" where
  "to_Error (ErrorObj m) = ErrorObj m"
| "to_Error (NonError m) = ErrorObj m"

text \<open>
  What a run does to the outside world, in order: calls of the retried operation (with
  the loop index), \<open>sleep\<close> calls (milliseconds), and the effects of the operations
  themselves.
\<close>

datatype 'e trace_event = Invoke nat | Sleep nat | Effect 'e

text \<open>
  \<open>retry\<close>. The operation is given by the outcome and the effects of each of its
  calls, numbered from 0. \<open>throw lastError!\<close> with no error recorded throws
  \<open>undefined\<close>.
\<close>

function retry_loop ::
  "(nat \<Rightarrow> (message thrown + 'a) \<times> 'e list) \<Rightarrow> nat \<Rightarrow> nat \<Rightarrow> nat \<Rightarrow> message thrown option \<Rightarrow>
   (message thrown + 'a) \<times> 'e trace_event list" where
  "retry_loop operation maxRetries baseDelay attempt lastError =
     (if attempt \<le> maxRetries then
        (case operation attempt of
           (Inr v, effects) \<Rightarrow> (Inr v, Invoke attempt # map Effect effects)
         | (Inl error, effects) \<Rightarrow>
             (case retry_loop operation maxRetries baseDelay (attempt + 1) (Some (to_Error error)) of
                (r, rest) \<Rightarrow>
                  (r, Invoke attempt # map Effect effects @
                      (if attempt < maxRetries then [Sleep (baseDelay * 2 ^ attempt)] else []) @ rest)))
      else
        (case lastError of
           Some e \<Rightarrow> (Inl e, [])
         | None \<Rightarrow> (Inl (NonError (Text ''undefined'')), [])))"
  by pat_completeness auto
termination
  by (relation "measure (\<lambda>(operation, maxRetries, baseDelay, attempt, lastError). Suc maxRetries - attempt)")
     auto

definition retry ::
  "(nat \<Rightarrow> (message thrown + 'a) \<times> 'e list) \<Rightarrow> nat \<Rightarrow> nat \<Rightarrow> (message thrown + 'a) \<times> 'e trace_event list" where
  "retry operation maxRetries baseDelay = retry_loop operation maxRetries baseDelay 0 None"

text \<open>\<open>retry(operation)\<close> with the default parameters.\<close>

definition retry_default ::
  "(nat \<Rightarrow> (message thrown + 'a) \<times> 'e list) \<Rightarrow> (message thrown + 'a) \<times> 'e trace_event list" where
  "retry_default operation = retry operation 3 1000"

fun is_Invoke :: "'e trace_event \<Rightarrow> bool" where
  "is_Invoke (Invoke n) = True"
| "is_Invoke _ = False"

fun is_Effect :: "'e trace_event \<Rightarrow> bool" where
  "is_Effect (Effect e) = True"
| "is_Effect _ = False"

text \<open>The calls and pauses of a trace, without the effects of the operation.\<close>

definition control :: "'e trace_event list \<Rightarrow> 'e trace_event list" where
  "control evs = filter (\<lambda>e. \<not> is_Effect e) evs"

text \<open>
  The trace the retry policy prescribes up to a call \<open>k\<close>: every earlier call \<open>n\<close> is
  followed by a pause of \<open>1000 \<times> 2\<^sup>n\<close> milliseconds.
\<close>

definition backoff_schedule :: "nat \<Rightarrow> 'e trace_event list" where
  "backoff_schedule k = concat (map (\<lambda>n. [Invoke n, Sleep (1000 * 2 ^ n)]) [0..<k]) @ [Invoke k]"

subsection \<open>The file system as the sink\<close>

text \<open>An \<open>fs.mkdir\<close> failure: an \<open>Error\<close> carrying a \<open>code\<close>, or anything else.\<close>

datatype mkdir_failure = ErrorWithCode string message | OtherFailure

record SymbolData =
  data_symbol :: string
  contracts :: "ProcessedOptionContract list"
  contractCount :: nat
  expirations :: "string list"
  strikeRange :: "jsnum \<times> jsnum"

record ApiMetadata =
  dataDate :: string
  symbolCount :: nat
  totalContracts :: nat
  processing_errors :: "message list"
  processing_warnings :: "(nat \<times> validation_warning) list"
  coverage_calls :: nat
  coverage_puts :: nat
  symbolsWithData :: nat

datatype artifact =
    SymbolArtifact SymbolData
  | IndexArtifact "string list"
  | MetadataArtifact ApiMetadata

text \<open>A buffer: the serialised data and its length in bytes.\<close>

record buffer =
  payload :: artifact
  byte_length :: nat

text \<open>The calls made to the file system: \<open>fs.mkdir(dirPath)\<close> and \<open>fs.writeFile(filePath, buffer)\<close>.\<close>

datatype fs_event = FsMkdir string | FsWriteFile string buffer

text \<open>
  The environment of a run. \<open>apiOutputPath\<close> is the output root handed to the
  constructor; \<open>MAX_CONCURRENCY\<close> is \<open>min(16, cpus)\<close> on the host; \<open>json_length\<close>
  is the byte length of \<open>Buffer.from(JSON.stringify(data))\<close>;
  \<open>fs_writeFile p b n\<close> is the outcome of the \<open>n\<close>-th call (from 0) of
  \<open>fs.writeFile(p, b)\<close> with these arguments, \<open>None\<close> for success; \<open>fs_mkdir d\<close> is
  the outcome of \<open>fs.mkdir\<close> on the directory \<open>d\<close>, the same at each call of a run;
  \<open>today\<close> is the current date. Clock readings (\<open>lastUpdated\<close>, \<open>processingTime\<close>
  and the like) are left out of the records.
\<close>

record env =
  apiOutputPath :: string
  MAX_CONCURRENCY :: nat
  json_length :: "artifact \<Rightarrow> nat"
  fs_writeFile :: "string \<Rightarrow> buffer \<Rightarrow> nat \<Rightarrow> message thrown option"
  fs_mkdir :: "string \<Rightarrow> mkdir_failure option"
  today :: string

definition MAX_FILE_SIZE :: nat where
  "MAX_FILE_SIZE = 50 * 1024 * 1024"

definition ensureDir :: "env \<Rightarrow> string \<Rightarrow> (message thrown + unit) \<times> fs_event list" where
  "ensureDir e dirPath =
     (case fs_mkdir e dirPath of
        Some (ErrorWithCode code msg) \<Rightarrow>
          if code \<noteq> ''EEXIST'' then (Inl (ErrorObj (FailedToCreateDirectory dirPath msg)), [FsMkdir dirPath])
          else (Inr (), [FsMkdir dirPath])
      | _ \<Rightarrow> (Inr (), [FsMkdir dirPath]))"

definition convertJsonToBuffer :: "env \<Rightarrow> artifact \<Rightarrow> buffer" where
  "convertJsonToBuffer e data = \<lparr>payload = data, byte_length = json_length e data\<rparr>"

text \<open>
  \<open>writeJsonFile\<close>; \<open>earlier\<close> counts the earlier calls made with the same path and
  buffer.
\<close>

definition writeJsonFile :: "env \<Rightarrow> string \<Rightarrow> buffer \<Rightarrow> nat \<Rightarrow> (message thrown + nat) \<times> fs_event list" where
  "writeJsonFile e filePath buf earlier =
     (if byte_length buf > MAX_FILE_SIZE
      then (Inl (ErrorObj (FileTooLarge (byte_length buf) MAX_FILE_SIZE)), [])
      else (case fs_writeFile e filePath buf earlier of
              None \<Rightarrow> (Inr (byte_length buf), [FsWriteFile filePath buf])
            | Some error \<Rightarrow>
                (Inl (ErrorObj (FailedToWriteFile filePath (error_text error))),
                 [FsWriteFile filePath buf])))"

section \<open>Persistence runner and aggregator (data-processor.ts)\<close>

datatype error_type = validation | file_read | file_write | data_parse | memory | unknown

record ProcessingError =
  error_type :: error_type
  error_message :: message
  error_row :: "nat option"
  error_symbol :: "string option"

record ProcessingStats =
  totalRows :: nat
  validRows :: nat
  invalidRows :: nat
  uniqueSymbols :: nat
  filesSaved :: nat
  stats_errors :: "ProcessingError list"
  stats_warnings :: "(nat \<times> validation_warning) list"

record SymbolProcessingResult =
  result_symbol :: string
  success :: bool
  result_contractCount :: nat
  fileSize :: nat
  filePath :: string
  error :: "message option"

definition createError :: "error_type \<Rightarrow> message \<Rightarrow> nat option \<Rightarrow> string option \<Rightarrow> ProcessingError" where
  "createError t msg row symbolName = \<lparr>error_type = t, error_message = msg, error_row = row, error_symbol = symbolName\<rparr>"

text \<open>\<open>Array.from(new Set(array))\<close>: first occurrences, in order.\<close>

definition getUniqueValues :: "'a list \<Rightarrow> 'a list" where
  "getUniqueValues array = foldl (\<lambda>acc x. if x \<in> set acc then acc else acc @ [x]) [] array"

definition getStrikeRange :: "ProcessedOptionContract list \<Rightarrow> jsnum \<times> jsnum" where
  "getStrikeRange cs =
     (if cs = [] then (Fin 0, Fin 0)
      else foldl (\<lambda>(mn, mx) c.
                    (if js_less (strike c) mn then strike c else mn,
                     if js_less mx (strike c) then strike c else mx))
             (PosInf, NegInf) cs)"

definition symbol_data :: "string \<Rightarrow> ProcessedOptionContract list \<Rightarrow> SymbolData" where
  "symbol_data symbolName cs =
     \<lparr>data_symbol = symbolName, contracts = cs, contractCount = length cs,
      expirations = sort (getUniqueValues (map expiration cs)),
      strikeRange = getStrikeRange cs\<rparr>"

text \<open>
  \<open>processSymbol\<close>. The group is \<open>symbolGroups.get(symbol)\<close>; were it absent, reading
  its length would raise inside the \<open>try\<close> block. The buffer holds the symbol, so no
  other call writes this buffer, and the calls of \<open>fs.writeFile\<close> with it are numbered
  by the retry loop.
\<close>

definition processSymbol ::
  "env \<Rightarrow> ProcessingStats \<Rightarrow> string \<Rightarrow> ProcessedOptionContract list option \<Rightarrow>
   (message thrown + SymbolProcessingResult) \<times> ProcessingStats \<times> fs_event trace_event list" where
  "processSymbol e stats symbolName contractsOpt =
     (case contractsOpt of
        None \<Rightarrow> (Inl (ErrorObj (SymbolProcessingFailed symbolName (Text ''TypeError''))), stats, [])
      | Some cs \<Rightarrow>
          (let symbolData = symbol_data symbolName cs;
               file = join [apiOutputPath e, SYMBOLS_DIR, symbolName @ ''.json'']
           in case ensureDir e (dirname file) of
                (Inl err, ev) \<Rightarrow>
                  (Inl (ErrorObj (SymbolProcessingFailed symbolName (error_text err))), stats, map Effect ev)
              | (Inr _, ev) \<Rightarrow>
                  (let fileBuffer = convertJsonToBuffer e (SymbolArtifact symbolData) in
                   case retry_default (\<lambda>n. writeJsonFile e file fileBuffer n) of
                     (Inr written, tr) \<Rightarrow>
                       (Inr \<lparr>result_symbol = symbolName, success = True, result_contractCount = length cs,
                             fileSize = written, filePath = file, error = None\<rparr>,
                        stats\<lparr>filesSaved := filesSaved stats + 1\<rparr>, map Effect ev @ tr)
                   | (Inl err, tr) \<Rightarrow>
                       (Inl (ErrorObj (SymbolProcessingFailed symbolName (error_text err))), stats,
                        map Effect ev @ tr))))"

record runner_state =
  results :: "SymbolProcessingResult list"
  stats :: ProcessingStats
  trace :: "fs_event trace_event list"

text \<open>The body of \<open>batchResults.forEach\<close>: what is recorded for one settled promise.\<close>

definition record_outcome ::
  "string \<Rightarrow> message thrown + SymbolProcessingResult \<Rightarrow> runner_state \<Rightarrow> runner_state" where
  "record_outcome symbolName outcome st =
     (case outcome of
        Inr v \<Rightarrow> st\<lparr>results := results st @ [v]\<rparr>
      | Inl reason \<Rightarrow>
          (let err = createError file_write (FailedToProcessSymbol symbolName reason) None (Some symbolName) in
           st\<lparr>stats := (stats st)\<lparr>stats_errors := stats_errors (stats st) @ [err]\<rparr>,
              results := results st @
                [\<lparr>result_symbol = symbolName, success = False, result_contractCount = 0, fileSize = 0,
                  filePath = [], error = Some (error_message err)\<rparr>]\<rparr>))"

text \<open>
  One wave: the batch's \<open>processSymbol\<close> calls are started together and all awaited
  (\<open>Promise.allSettled\<close>); then the outcomes are recorded in batch order. The calls
  touch disjoint files and only increment \<open>filesSaved\<close>, so they are run here one after
  the other and their traces concatenated.
\<close>

fun launch_batch ::
  "env \<Rightarrow> PartitionMap \<Rightarrow> string list \<Rightarrow> runner_state \<Rightarrow>
   (string \<times> (message thrown + SymbolProcessingResult)) list \<times> runner_state" where
  "launch_batch e symbolGroups [] st = ([], st)"
| "launch_batch e symbolGroups (symbolName # batch) st =
     (case processSymbol e (stats st) symbolName (map_of symbolGroups symbolName) of
        (outcome, stats', tr) \<Rightarrow>
          (case launch_batch e symbolGroups batch (st\<lparr>stats := stats', trace := trace st @ tr\<rparr>) of
             (outcomes, st') \<Rightarrow> ((symbolName, outcome) # outcomes, st')))"

definition run_wave :: "env \<Rightarrow> PartitionMap \<Rightarrow> string list \<Rightarrow> runner_state \<Rightarrow> runner_state" where
  "run_wave e symbolGroups batch st =
     (case launch_batch e symbolGroups batch st of
        (outcomes, st') \<Rightarrow> foldl (\<lambda>s (symbolName, outcome). record_outcome symbolName outcome s) st' outcomes)"

text \<open>
  The wave loop of \<open>processSymbols\<close>. With a concurrency of 0 and symbols left the
  index never advances: the loop does not return (\<open>None\<close>).
\<close>

function process_waves ::
  "env \<Rightarrow> PartitionMap \<Rightarrow> string list \<Rightarrow> nat \<Rightarrow> nat \<Rightarrow> runner_state \<Rightarrow> runner_state option" where
  "process_waves e symbolGroups symbols concurrency i st =
     (if i < length symbols then
        (if concurrency = 0 then None
         else process_waves e symbolGroups symbols concurrency (i + concurrency)
                (run_wave e symbolGroups (take concurrency (drop i symbols)) st))
      else Some st)"
  by pat_completeness auto
termination
  by (relation "measure (\<lambda>(e, symbolGroups, symbols, concurrency, i, st). length symbols - i)") auto

definition processSymbols :: "env \<Rightarrow> PartitionMap \<Rightarrow> ProcessingStats \<Rightarrow> runner_state option" where
  "processSymbols e symbolGroups st0 =
     (let symbols = map fst symbolGroups;
          concurrency = min (MAX_CONCURRENCY e) (length symbols)
      in process_waves e symbolGroups symbols concurrency 0 \<lparr>results = [], stats = st0, trace = []\<rparr>)"





text \<open>The statistics as the constructor of \<open>OptionsDataProcessor\<close> sets them.\<close>

definition initial_stats :: ProcessingStats where
  "initial_stats =
     \<lparr>totalRows = 0, validRows = 0, invalidRows = 0, uniqueSymbols = 0, filesSaved = 0,
      stats_errors = [], stats_warnings = []\<rparr>"

subsection \<open>The runner's final state, key by key\<close>

text \<open>
  What \<open>processSymbol\<close> settles with for a key and what it does on the way; neither
  depends on the statistics it is handed.
\<close>

definition key_outcome :: "env \<Rightarrow> PartitionMap \<Rightarrow> string \<Rightarrow> message thrown + SymbolProcessingResult" where
  "key_outcome e symbolGroups k = fst (processSymbol e initial_stats k (map_of symbolGroups k))"

definition key_trace :: "env \<Rightarrow> PartitionMap \<Rightarrow> string \<Rightarrow> fs_event trace_event list" where
  "key_trace e symbolGroups k = snd (snd (processSymbol e initial_stats k (map_of symbolGroups k)))"

definition result_of_outcome :: "string \<Rightarrow> message thrown + SymbolProcessingResult \<Rightarrow> SymbolProcessingResult" where
  "result_of_outcome k outcome =
     (case outcome of
        Inr v \<Rightarrow> v
      | Inl reason \<Rightarrow>
          \<lparr>result_symbol = k, success = False, result_contractCount = 0, fileSize = 0, filePath = [],
           error = Some (FailedToProcessSymbol k reason)\<rparr>)"

definition errors_of_outcome :: "string \<Rightarrow> message thrown + SymbolProcessingResult \<Rightarrow> ProcessingError list" where
  "errors_of_outcome k outcome =
     (case outcome of
        Inr v \<Rightarrow> []
      | Inl reason \<Rightarrow> [createError file_write (FailedToProcessSymbol k reason) None (Some k)])"

definition settle :: "env \<Rightarrow> PartitionMap \<Rightarrow> string list \<Rightarrow> runner_state \<Rightarrow> runner_state" where
  "settle e symbolGroups keys st =
     \<lparr>results = results st @ map (\<lambda>k. result_of_outcome k (key_outcome e symbolGroups k)) keys,
      stats = (stats st)
        \<lparr>filesSaved := filesSaved (stats st) +
           length (filter (\<lambda>k. \<not> isl (key_outcome e symbolGroups k)) keys),
         stats_errors := stats_errors (stats st) @
           concat (map (\<lambda>k. errors_of_outcome k (key_outcome e symbolGroups k)) keys)\<rparr>,
      trace = trace st @ concat (map (key_trace e symbolGroups) keys)\<rparr>"

subsection \<open>Failure of one key, as the specification words it\<close>

text \<open>The three kinds of output file of a run, and the buffer written for a key.\<close>

definition symbol_file :: "env \<Rightarrow> string \<Rightarrow> string" where
  "symbol_file e k = join [apiOutputPath e, SYMBOLS_DIR, k @ ''.json'']"








subsection \<open>Sample runs\<close>

text \<open>A sink that takes every write, with a serialiser whose output is one byte over the ceiling.\<close>

definition oversize_env :: env where
  "oversize_env =
     \<lparr>apiOutputPath = ''/api'', MAX_CONCURRENCY = 1, json_length = (\<lambda>a. 52428801),
      fs_writeFile = (\<lambda>p b n. None), fs_mkdir = (\<lambda>d. None), today = ''2024-01-19''\<rparr>"




text \<open>An operation that fails twice and then succeeds, and one that always fails.\<close>

definition flaky :: "nat \<Rightarrow> (message thrown + nat) \<times> nat list" where
  "flaky n = (if n < 2 then (Inl (ErrorObj (Text ''EBUSY'')), [n]) else (Inr n, [n]))"

definition hopeless :: "nat \<Rightarrow> (message thrown + nat) \<times> nat list" where
  "hopeless n = (Inl (NonError (Text ''disk full'')), [n])"

section \<open>Properties\<close>

subsection \<open>Calendar dates\<close>

lemma is_digit_not_hyphen: "is_digit c \<Longrightarrow> c \<noteq> CHR ''-''"
  by (auto simp: is_digit_def)

lemma regex_test_date_iff: "regex_test_date s = iso_date_pattern s"
  by (cases s rule: regex_test_date.cases) (auto simp: iso_date_pattern_def)

lemma isValidDate_shape:
  assumes "regex_test_date s"
  shows "isValidDate s =
    (1000 \<le> year_field s \<and> 1 \<le> month_field s \<and> month_field s \<le> 12 \<and>
     1 \<le> day_field s \<and> day_field s \<le> 31 \<and>
     js_Date_fields (year_field s) (month_field s - 1) (day_field s)
       = (year_field s, month_field s - 1, day_field s))"
proof -
  from assms obtain y1 y2 y3 y4 m1 m2 d1 d2 where
    s: "s = [y1, y2, y3, y4, CHR ''-'', m1, m2, CHR ''-'', d1, d2]"
    and dg: "is_digit y1" "is_digit y2" "is_digit y3" "is_digit y4"
            "is_digit m1" "is_digit m2" "is_digit d1" "is_digit d2"
    by (cases s rule: regex_test_date.cases) auto
  have sp: "split_on CHR ''-'' s = [[y1, y2, y3, y4], [m1, m2], [d1, d2]]"
    using dg by (simp add: s is_digit_not_hyphen)
  have n: "to_number [y1, y2, y3, y4] = Some (year_field s)"
     "to_number [m1, m2] = Some (month_field s)"
     "to_number [d1, d2] = Some (day_field s)"
    using dg by (simp_all add: s to_number_def year_field_def month_field_def day_field_def digit_value_def)
  have ne: "s \<noteq> []"
    by (simp add: s)
  show ?thesis
    by (auto simp: isValidDate_def ne assms sp n split: prod.splits)
qed

text \<open>
  Claim C7. The calendar-date predicate accepts a string exactly when it matches the
  fixed-width pattern, its year is at least 1000, its month is in 1..12, its day is in
  1..31, and the date rebuilt from year, month and day has the same year, month and day.
  "2023-02-30" and "2023-02-29" are rejected; "2023-02-28" and "2024-02-29" are accepted.
\<close>

theorem calendar_date_predicate:
  "(isValidDate s \<longleftrightarrow>
      iso_date_pattern s \<and> 1000 \<le> year_field s \<and>
      1 \<le> month_field s \<and> month_field s \<le> 12 \<and>
      1 \<le> day_field s \<and> day_field s \<le> 31 \<and>
      js_Date_fields (year_field s) (month_field s - 1) (day_field s)
        = (year_field s, month_field s - 1, day_field s)) \<and>
   \<not> isValidDate ''2023-02-30'' \<and> \<not> isValidDate ''2023-02-29'' \<and>
   isValidDate ''2023-02-28'' \<and> isValidDate ''2024-02-29''"
proof -
  have ex: "\<not> isValidDate ''2023-02-30''" "\<not> isValidDate ''2023-02-29''"
     "isValidDate ''2023-02-28''" "isValidDate ''2024-02-29''"
    by (simp_all add: isValidDate_def is_digit_def to_number_def js_Date_fields_def
         days_in_month_def is_leap_year_def)
  have gen: "isValidDate s \<longleftrightarrow>
      iso_date_pattern s \<and> 1000 \<le> year_field s \<and>
      1 \<le> month_field s \<and> month_field s \<le> 12 \<and>
      1 \<le> day_field s \<and> day_field s \<le> 31 \<and>
      js_Date_fields (year_field s) (month_field s - 1) (day_field s)
        = (year_field s, month_field s - 1, day_field s)"
  proof (cases "regex_test_date s")
    case True
    then show ?thesis using isValidDate_shape[OF True] by (simp add: regex_test_date_iff)
  next
    case False
    then show ?thesis by (simp add: isValidDate_def flip: regex_test_date_iff)
  qed
  from gen ex show ?thesis by blast
qed

theorem calendar_date_predicate_witness:
  "isValidDate ''2024-02-29'' \<and> iso_date_pattern ''2024-02-29'' \<and>
   js_Date_fields 2024 1 29 = (2024, 1, 29)"
  using calendar_date_predicate[of "''2024-02-29''"]
  by (simp add: year_field_def month_field_def day_field_def digit_value_def
      iso_date_pattern_def is_digit_def js_Date_fields_def days_in_month_def is_leap_year_def)

text \<open>The rebuilt date agrees exactly when the day exists in that month.\<close>

lemma date_roundtrip_iff:
  "0 \<le> m \<Longrightarrow> m \<le> 11 \<Longrightarrow> 1 \<le> d \<Longrightarrow>
   js_Date_fields y m d = (y, m, d) \<longleftrightarrow> d \<le> days_in_month y m"
  by (auto simp: js_Date_fields_def days_in_month_def)


subsection \<open>Validator\<close>

lemma strike_check_iff:
  "(isNaN (js_Number (raw_strike raw)) \<or> js_le (js_Number (raw_strike raw)) (Fin 0)) = strike_malformed raw"
  by (auto simp: strike_malformed_def isNaN_def js_Number_def js_le_def js_strict_eq_def
      split: option.splits jsnum.splits)

lemma bid_check_iff:
  "(isNaN (js_Number (raw_bid raw)) \<or> js_less (js_Number (raw_bid raw)) (Fin 0)) = bid_malformed raw"
  by (auto simp: bid_malformed_def isNaN_def js_Number_def split: option.splits jsnum.splits)

lemma ask_check_iff:
  "(isNaN (js_Number (raw_ask raw)) \<or> js_less (js_Number (raw_ask raw)) (Fin 0)) = ask_malformed raw"
  by (auto simp: ask_malformed_def isNaN_def js_Number_def split: option.splits jsnum.splits)

lemma bid_malformed_not_zero: "bid_malformed raw \<Longrightarrow> \<not> js_strict_eq (js_Number (raw_bid raw)) (Fin 0)"
  by (auto simp: bid_malformed_def js_Number_def js_strict_eq_def split: option.splits jsnum.splits)

lemma validateContract_numeric_errors:
  assumes "passes_presence_gate raw"
    and "strike_malformed raw \<or> bid_malformed raw \<or> ask_malformed raw"
  shows "validateContract raw =
     \<lparr>isValid = False,
      errors = numeric_errors raw @
        (if js_strict_eq (js_Number (raw_bid raw)) (Fin 0) \<and> js_strict_eq (js_Number (raw_ask raw)) (Fin 0)
         then [NoBidOrAskPrice] else []),
      warnings =
        (if js_less (Fin 0) (js_Number (raw_bid raw)) \<and> js_less (Fin 0) (js_Number (raw_ask raw)) \<and>
            js_le (js_Number (raw_ask raw)) (js_Number (raw_bid raw))
         then [UnusualSpread (js_Number (raw_bid raw)) (js_Number (raw_ask raw))] else []),
      cleanedData = None\<rparr>"
proof -
  from assms(1) obtain a d e where
    f: "raw_act_symbol raw = Some a" "raw_date raw = Some d" "raw_expiration raw = Some e"
    and ne: "trim a \<noteq> []" "d \<noteq> []" "e \<noteq> []"
    by (auto simp: passes_presence_gate_def split: option.splits)
  from assms(2) have "numeric_errors raw \<noteq> []"
    by (auto simp: numeric_errors_def)
  then show ?thesis
    by (simp add: validateContract_def f ne Let_def strike_check_iff bid_check_iff ask_check_iff
        numeric_errors_def)
qed

lemma sample_strings:
  "trim ''AAPL'' = ''AAPL''" "trim ''2024-01-19'' = ''2024-01-19''"
  "trim ''2024-02-16'' = ''2024-02-16''" "normalizeCallPutType (Some ''C'') = Inr call"
  by code_simp+

text \<open>
  Claim C6. For a row that passes the presence gate, strike, bid and ask are checked
  independently: each malformed field contributes exactly one error of its own kind, any
  malformed field makes the row invalid, and with all three malformed the three errors are
  reported together.
\<close>

theorem numeric_fields_checked_independently:
  assumes "passes_presence_gate raw"
  shows "length (filter is_strike_error (errors (validateContract raw))) = (if strike_malformed raw then 1 else 0)
       \<and> length (filter is_bid_error (errors (validateContract raw))) = (if bid_malformed raw then 1 else 0)
       \<and> length (filter is_ask_error (errors (validateContract raw))) = (if ask_malformed raw then 1 else 0)
       \<and> (strike_malformed raw \<or> bid_malformed raw \<or> ask_malformed raw \<longrightarrow>
            \<not> isValid (validateContract raw) \<and> cleanedData (validateContract raw) = None)
       \<and> (strike_malformed raw \<and> bid_malformed raw \<and> ask_malformed raw \<longrightarrow>
            errors (validateContract raw) =
              [InvalidStrikePrice (raw_strike raw), InvalidBid (raw_bid raw), InvalidAsk (raw_ask raw)])"
proof (cases "strike_malformed raw \<or> bid_malformed raw \<or> ask_malformed raw")
  case True
  note vc = validateContract_numeric_errors[OF assms True]
  show ?thesis
    using bid_malformed_not_zero[of raw]
    by (simp add: vc numeric_errors_def)
next
  case False
  from assms obtain a d e where
    f: "raw_act_symbol raw = Some a" "raw_date raw = Some d" "raw_expiration raw = Some e"
    and ne: "trim a \<noteq> []" "d \<noteq> []" "e \<noteq> []"
    by (auto simp: passes_presence_gate_def split: option.splits)
  have "list_all (\<lambda>e. \<not> is_strike_error e \<and> \<not> is_bid_error e \<and> \<not> is_ask_error e)
          (errors (validateContract raw))"
    using False
    by (simp add: validateContract_def f ne Let_def strike_check_iff bid_check_iff ask_check_iff
        split: sum.splits)
  then have "filter is_strike_error (errors (validateContract raw)) = []"
    "filter is_bid_error (errors (validateContract raw)) = []"
    "filter is_ask_error (errors (validateContract raw)) = []"
    by (auto simp: filter_empty_conv list_all_iff)
  with False show ?thesis by simp
qed

theorem numeric_fields_checked_independently_witness:
  "passes_presence_gate (malformed_numbers_row)
   \<and> errors (validateContract (malformed_numbers_row))
       = [InvalidStrikePrice (Some NaN), InvalidBid None, InvalidAsk (Some (Fin (- 1)))]
   \<and> \<not> isValid (validateContract (malformed_numbers_row))"
proof -
  let ?r = malformed_numbers_row
  have g: "passes_presence_gate ?r"
    by (simp add: passes_presence_gate_def malformed_numbers_row_def fractional_volume_row_def
        sample_strings)
  have m: "strike_malformed ?r" "bid_malformed ?r" "ask_malformed ?r"
    by (simp_all add: strike_malformed_def bid_malformed_def ask_malformed_def
        malformed_numbers_row_def fractional_volume_row_def)
  show ?thesis
    using numeric_fields_checked_independently[OF g] g m
    by (simp add: malformed_numbers_row_def fractional_volume_row_def)
qed

lemma accepted_has_cleanedData:
  "isValid (validateContract raw) \<Longrightarrow> \<exists>c. cleanedData (validateContract raw) = Some c"
  by (cases "raw_act_symbol raw"; cases "raw_date raw"; cases "raw_expiration raw")
     (auto simp: validateContract_def Let_def split: if_splits sum.splits)

lemma cleaned_volume:
  "cleanedData (validateContract raw) = Some c \<Longrightarrow>
   volume c = Math_max (Fin 0) (or_zero (js_Number (raw_vol raw)))"
  by (cases "raw_act_symbol raw"; cases "raw_date raw"; cases "raw_expiration raw")
     (auto simp: validateContract_def Let_def split: if_splits sum.splits)

lemma volume_value:
  "Math_max (Fin 0) (or_zero (js_Number v)) =
     (case v of None \<Rightarrow> Fin 0 | Some x \<Rightarrow> if js_less (Fin 0) x then x else Fin 0)"
  by (auto simp: Math_max_def or_zero_def js_Number_def split: option.splits jsnum.splits)

text \<open>
  Claim C3, as the code has it. For every accepted row the cleaned volume is a
  non-negative number: 0 when the raw volume is absent, not a number, zero or negative,
  and the raw volume itself, unchanged, when that is positive. No step makes it an integer.
\<close>

theorem cleaned_volume_nonnegative:
  assumes "isValid (validateContract raw)"
  shows "\<exists>c. cleanedData (validateContract raw) = Some c \<and>
           js_le (Fin 0) (volume c) \<and>
           volume c = (case raw_vol raw of None \<Rightarrow> Fin 0
                       | Some x \<Rightarrow> if js_less (Fin 0) x then x else Fin 0)"
proof -
  from accepted_has_cleanedData[OF assms] obtain c where c: "cleanedData (validateContract raw) = Some c"
    by blast
  have v: "volume c = (case raw_vol raw of None \<Rightarrow> Fin 0
                       | Some x \<Rightarrow> if js_less (Fin 0) x then x else Fin 0)"
    using cleaned_volume[OF c] by (simp add: volume_value)
  have "js_le (Fin 0) (volume c)"
    by (auto simp: v js_le_def js_strict_eq_def split: option.splits)
  with c v show ?thesis by blast
qed

lemma sample_dates_valid: "isValidDate ''2024-01-19''" "isValidDate ''2024-02-16''"
  by (simp_all add: isValidDate_def is_digit_def to_number_def js_Date_fields_def
      days_in_month_def is_leap_year_def)

lemma fractional_volume_row_accepted:
  "isValid (validateContract fractional_volume_row)"
  "map_option volume (cleanedData (validateContract fractional_volume_row)) = Some (Fin (7 / 2))"
  by (simp_all add: validateContract_def fractional_volume_row_def Let_def sample_dates_valid
      sample_strings js_Number_def isNaN_def js_le_def js_strict_eq_def Math_max_def or_zero_def)

lemma seven_halves_not_integer: "\<not> is_nonneg_integer (Fin (7 / 2))"
  by code_simp

text \<open>A raw volume of 3.5 is kept as 3.5.\<close>

theorem fractional_volume_counterexample:
  "isValid (validateContract fractional_volume_row) \<and>
   map_option volume (cleanedData (validateContract fractional_volume_row)) = Some (Fin (7 / 2)) \<and>
   \<not> is_nonneg_integer (Fin (7 / 2))"
  using fractional_volume_row_accepted seven_halves_not_integer by blast

theorem cleaned_volume_nonnegative_witness:
  "isValid (validateContract fractional_volume_row) \<and>
   (\<exists>c. cleanedData (validateContract fractional_volume_row) = Some c \<and>
        js_le (Fin 0) (volume c) \<and> volume c = Fin (7 / 2))"
  using cleaned_volume_nonnegative[OF fractional_volume_row_accepted(1)]
    fractional_volume_row_accepted(1)
  by (simp add: fractional_volume_row_def)

subsection \<open>Partitioner: grouping\<close>

lemma group_pass_snoc: "group_pass (cs @ [c]) = push_contract (group_pass cs) c"
  by (simp add: group_pass_def)

lemma keys_push_contract:
  "map fst (push_contract g c) =
     (if symbol c \<in> fst ` set g then map fst g else map fst g @ [symbol c])"
  by (induction g c rule: push_contract.induct) auto

lemma map_of_push_contract:
  "map_of (push_contract g c) =
     (map_of g)(symbol c \<mapsto> (case map_of g (symbol c) of None \<Rightarrow> [c] | Some gr \<Rightarrow> gr @ [c]))"
  by (induction g c rule: push_contract.induct) (auto simp: fun_eq_iff)

lemma all_groups_push_contract: "all_groups (push_contract g c) = all_groups g + {#c#}"
  by (induction g c rule: push_contract.induct) (auto simp: all_groups_def)

lemma keys_group_pass: "set (map fst (group_pass cs)) = symbol ` set cs"
proof (induction cs rule: rev_induct)
  case Nil
  show ?case by (simp add: group_pass_def)
next
  case (snoc c cs)
  then show ?case by (auto simp: group_pass_snoc keys_push_contract)
qed

lemma distinct_keys_group_pass: "distinct (map fst (group_pass cs))"
proof (induction cs rule: rev_induct)
  case Nil
  show ?case by (simp add: group_pass_def)
next
  case (snoc c cs)
  then show ?case by (auto simp: group_pass_snoc keys_push_contract)
qed

lemma map_of_group_pass:
  "map_of (group_pass cs) k =
     (if k \<in> symbol ` set cs then Some (filter (\<lambda>c. symbol c = k) cs) else None)"
proof (induction cs rule: rev_induct)
  case Nil
  show ?case by (simp add: group_pass_def)
next
  case (snoc c cs)
  have "symbol c \<notin> symbol ` set cs \<Longrightarrow> filter (\<lambda>d. symbol d = symbol c) cs = []"
    unfolding filter_empty_conv by (metis imageI)
  with snoc show ?case by (auto simp: group_pass_snoc map_of_push_contract)
qed

lemma all_groups_group_pass: "all_groups (group_pass cs) = mset cs"
  by (induction cs rule: rev_induct)
     (simp_all add: group_pass_snoc all_groups_push_contract, simp add: group_pass_def all_groups_def)

lemma group_pass_entry:
  assumes "(k, g) \<in> set (group_pass cs)"
  shows "g = filter (\<lambda>c. symbol c = k) cs \<and> g \<noteq> [] \<and> k \<in> symbol ` set cs"
proof -
  from assms have m: "map_of (group_pass cs) k = Some g"
    using distinct_keys_group_pass by simp
  then have k: "k \<in> symbol ` set cs" and g: "g = filter (\<lambda>c. symbol c = k) cs"
    by (auto simp: map_of_group_pass split: if_splits)
  from k have "filter (\<lambda>c. symbol c = k) cs \<noteq> []"
    by (auto simp: filter_empty_conv)
  with k g show ?thesis by simp
qed

lemma mset_insert_sorted: "mset (insert_sorted f x ys) = add_mset x (mset ys)"
  by (induction ys) auto

lemma mset_array_sort: "mset (array_sort f xs) = mset xs"
  by (induction xs) (simp_all add: array_sort_def mset_insert_sorted)

lemma keys_groupBySymbol: "map fst (groupBySymbol cs) = map fst (group_pass cs)"
  by (simp add: groupBySymbol_def case_prod_unfold comp_def)

lemma all_groups_groupBySymbol: "all_groups (groupBySymbol cs) = mset cs"
proof -
  have "all_groups (groupBySymbol cs) = all_groups (group_pass cs)"
    unfolding all_groups_def groupBySymbol_def
    by (rule arg_cong[where f = sum_list]) (auto simp: mset_array_sort)
  then show ?thesis by (simp add: all_groups_group_pass)
qed

lemma groupBySymbol_entry:
  assumes "(k, g) \<in> set (groupBySymbol cs)"
  shows "\<exists>g0. (k, g0) \<in> set (group_pass cs) \<and>
           g = (if length g0 > 1 then array_sort compareContracts g0 else g0)"
  using assms by (auto simp: groupBySymbol_def)

text \<open>
  Claim C10. Grouping conserves records: the groups together hold exactly the input
  records, each as often as the input has it; every group is the input restricted to its
  key, in input order, so every record sits in the group of its own symbol; keys are
  distinct and no group is empty. The same holds for the map \<open>groupBySymbol\<close> returns,
  up to the order within a group.
\<close>

theorem grouping_conserves_records:
  "all_groups (group_pass cs) = mset cs \<and>
   distinct (map fst (group_pass cs)) \<and>
   (\<forall>(k, g) \<in> set (group_pass cs). g \<noteq> [] \<and> g = filter (\<lambda>c. symbol c = k) cs) \<and>
   (\<forall>c \<in> set cs. map_of (group_pass cs) (symbol c) = Some (filter (\<lambda>d. symbol d = symbol c) cs)) \<and>
   all_groups (groupBySymbol cs) = mset cs \<and>
   (\<forall>(k, g) \<in> set (groupBySymbol cs). g \<noteq> [] \<and> mset g = mset (filter (\<lambda>c. symbol c = k) cs))"
proof -
  have a: "\<forall>(k, g) \<in> set (group_pass cs). g \<noteq> [] \<and> g = filter (\<lambda>c. symbol c = k) cs"
    using group_pass_entry by blast
  have b: "\<forall>c \<in> set cs. map_of (group_pass cs) (symbol c) = Some (filter (\<lambda>d. symbol d = symbol c) cs)"
    by (simp add: map_of_group_pass)
  have c: "\<forall>(k, g) \<in> set (groupBySymbol cs). g \<noteq> [] \<and> mset g = mset (filter (\<lambda>c. symbol c = k) cs)"
  proof (clarify)
    fix k g
    assume "(k, g) \<in> set (groupBySymbol cs)"
    then obtain g0 where g0: "(k, g0) \<in> set (group_pass cs)"
      and g: "g = (if length g0 > 1 then array_sort compareContracts g0 else g0)"
      using groupBySymbol_entry by blast
    from group_pass_entry[OF g0] have e: "g0 = filter (\<lambda>c. symbol c = k) cs" "g0 \<noteq> []"
      by blast+
    have m: "mset g = mset g0"
      by (simp add: g mset_array_sort)
    with e have "g \<noteq> []" by (metis mset_zero_iff)
    with m e show "g \<noteq> [] \<and> mset g = mset (filter (\<lambda>c. symbol c = k) cs)"
      by simp
  qed
  show ?thesis
    using a b c all_groups_group_pass distinct_keys_group_pass all_groups_groupBySymbol
    by blast
qed

lemma tie_group_pass: "group_pass [tie_a, tie_b] = [(''AAPL'', [tie_a, tie_b])]"
  by (simp add: group_pass_def tie_a_def tie_b_def)

theorem grouping_conserves_records_witness:
  "(''AAPL'', [tie_a, tie_b]) \<in> set (group_pass [tie_a, tie_b]) \<and>
   all_groups (group_pass [tie_a, tie_b]) = mset [tie_a, tie_b] \<and>
   [tie_a, tie_b] = filter (\<lambda>c. symbol c = ''AAPL'') [tie_a, tie_b]"
proof -
  have m: "(''AAPL'', [tie_a, tie_b]) \<in> set (group_pass [tie_a, tie_b])"
    by (simp add: tie_group_pass)
  show ?thesis
    using grouping_conserves_records[of "[tie_a, tie_b]"] m by blast
qed

subsection \<open>Partitioner: order within a group\<close>

lemma compare_positive_iff:
  assumes "strike x \<noteq> NaN" "strike y \<noteq> NaN"
  shows "js_less (Fin 0) (compareContracts x y) = (\<not> sort_rank x \<le> sort_rank y)"
proof (cases "expiration x = expiration y")
  case False
  then show ?thesis by (auto simp: compareContracts_def sort_rank_def)
next
  case e: True
  show ?thesis
  proof (cases "type x = type y")
    case False
    then show ?thesis
      using e by (cases "type x"; cases "type y") (auto simp: compareContracts_def sort_rank_def)
  next
    case True
    then show ?thesis
      using e assms
      by (cases "strike x"; cases "strike y") (auto simp: compareContracts_def sort_rank_def)
  qed
qed

lemma insert_sorted_is_insort:
  assumes "strike x \<noteq> NaN" "\<forall>c \<in> set ys. strike c \<noteq> NaN"
  shows "insert_sorted compareContracts x ys = insort_key sort_rank x ys"
  using assms by (induction ys) (auto simp: compare_positive_iff)

lemma array_sort_is_sort_key:
  assumes "\<forall>c \<in> set xs. strike c \<noteq> NaN"
  shows "array_sort compareContracts xs = sort_key sort_rank xs"
  using assms
proof (induction xs)
  case Nil
  show ?case by (simp add: array_sort_def)
next
  case (Cons x xs)
  then have "array_sort compareContracts xs = sort_key sort_rank xs" by simp
  moreover have "array_sort compareContracts (x # xs) = insert_sorted compareContracts x (array_sort compareContracts xs)"
    by (simp add: array_sort_def)
  ultimately show ?case
    using Cons.prems by (simp add: insert_sorted_is_insort)
qed

lemma rank_le_iff:
  assumes "strike a \<noteq> NaN" "strike b \<noteq> NaN"
  shows "(sort_rank a \<le> sort_rank b) = partition_order a b"
  using assms
  by (cases "type a"; cases "type b"; cases "strike a"; cases "strike b")
     (auto simp: sort_rank_def partition_order_def js_le_def js_strict_eq_def)

lemma strike_rank_inj: "strike_rank u = strike_rank v \<longleftrightarrow> u = v"
  by (cases u; cases v) auto

lemma rank_eq_iff: "(sort_rank a = sort_rank b) = (sort_fields a = sort_fields b)"
  by (cases "type a"; cases "type b") (auto simp: sort_rank_def sort_fields_def strike_rank_inj)

lemma compares_equal_iff:
  assumes "strike a \<noteq> NaN" "strike b \<noteq> NaN"
  shows "compares_equal a b = (sort_fields a = sort_fields b)"
proof -
  have "js_less (compareContracts a b) (Fin 0) = js_less (Fin 0) (compareContracts b a)"
    using assms
    by (cases "type a"; cases "type b"; cases "strike a"; cases "strike b")
       (auto simp: compareContracts_def)
  then have "compares_equal a b = (sort_rank a \<le> sort_rank b \<and> sort_rank b \<le> sort_rank a)"
    using assms by (simp add: compares_equal_def compare_positive_iff)
  then show ?thesis
    using rank_eq_iff[of a b] by auto
qed

lemma short_list_sorted: "length xs \<le> 1 \<Longrightarrow> sort_key f xs = xs"
  by (cases xs) (auto simp: length_Suc_conv)

lemma groupBySymbol_group:
  assumes "\<forall>c \<in> set cs. strike c \<noteq> NaN" "(k, g) \<in> set (groupBySymbol cs)"
  shows "g = sort_key sort_rank (filter (\<lambda>c. symbol c = k) cs)"
proof -
  from groupBySymbol_entry[OF assms(2)] obtain g0 where g0: "(k, g0) \<in> set (group_pass cs)"
    and g: "g = (if length g0 > 1 then array_sort compareContracts g0 else g0)"
    by blast
  from group_pass_entry[OF g0] have e: "g0 = filter (\<lambda>c. symbol c = k) cs"
    by blast
  have "\<forall>c \<in> set g0. strike c \<noteq> NaN"
    using assms(1) by (simp add: e)
  then have "array_sort compareContracts g0 = sort_key sort_rank g0"
    by (rule array_sort_is_sort_key)
  then have "g = sort_key sort_rank g0"
    using g by (simp add: short_list_sorted)
  then show ?thesis by (simp add: e)
qed

text \<open>
  Claim C5. For CleanRecords (whose strike is a number) every group of the partition
  map is ordered by expiration ascending, then calls before puts, then strike ascending;
  it is a rearrangement of the input records of its key; and the records that compare
  equal to any given record keep their input order.
\<close>

theorem group_order_and_stability:
  assumes "\<forall>c \<in> set cs. strike c \<noteq> NaN"
    and "(k, g) \<in> set (groupBySymbol cs)"
    and "strike r \<noteq> NaN"
  shows "sorted_wrt partition_order g \<and>
         mset g = mset (filter (\<lambda>c. symbol c = k) cs) \<and>
         filter (compares_equal r) g = filter (compares_equal r) (filter (\<lambda>c. symbol c = k) cs)"
proof -
  let ?g0 = "filter (\<lambda>c. symbol c = k) cs"
  have g: "g = sort_key sort_rank ?g0"
    using groupBySymbol_group[OF assms(1,2)] .
  have nn: "\<forall>c \<in> set g. strike c \<noteq> NaN"
    using assms(1) by (simp add: g)
  have "sorted (map sort_rank g)"
    by (simp add: g)
  then have "sorted_wrt (\<lambda>a b. sort_rank a \<le> sort_rank b) g"
    by (simp add: sorted_wrt_map)
  then have s: "sorted_wrt partition_order g"
    by (rule sorted_wrt_mono_rel[rotated]) (use nn in \<open>simp add: rank_le_iff\<close>)
  have eq: "\<And>xs. \<forall>c \<in> set xs. strike c \<noteq> NaN \<Longrightarrow>
      filter (compares_equal r) xs = filter (\<lambda>c. sort_rank c = sort_rank r) xs"
    using assms(3) by (intro filter_cong) (auto simp: compares_equal_iff rank_eq_iff)
  have "filter (compares_equal r) g = filter (\<lambda>c. sort_rank c = sort_rank r) g"
    using nn by (rule eq)
  also have "\<dots> = filter (\<lambda>c. sort_rank c = sort_rank r) ?g0"
    by (simp add: g sort_key_stable)
  also have "\<dots> = filter (compares_equal r) ?g0"
    using assms(1) by (intro eq[symmetric]) simp
  finally show ?thesis
    using s by (simp add: g)
qed

lemma three_record_groups:
  "groupBySymbol [tie_c, tie_b, tie_a] = [(''AAPL'', [tie_b, tie_a, tie_c])]"
  by (simp add: groupBySymbol_def group_pass_def array_sort_def compareContracts_def
      tie_a_def tie_b_def tie_c_def)

theorem group_order_and_stability_witness:
  "strike tie_c \<noteq> NaN \<and> strike tie_b \<noteq> NaN \<and>
   (''AAPL'', [tie_b, tie_a, tie_c]) \<in> set (groupBySymbol [tie_c, tie_b, tie_a]) \<and>
   strike tie_a \<noteq> NaN \<and>
   sorted_wrt partition_order [tie_b, tie_a, tie_c] \<and>
   filter (compares_equal tie_a) [tie_b, tie_a, tie_c] =
     filter (compares_equal tie_a) (filter (\<lambda>c. symbol c = ''AAPL'') [tie_c, tie_b, tie_a])"
proof -
  have n: "\<forall>c \<in> set [tie_c, tie_b, tie_a]. strike c \<noteq> NaN"
    by (simp add: tie_a_def tie_b_def tie_c_def)
  have m: "(''AAPL'', [tie_b, tie_a, tie_c]) \<in> set (groupBySymbol [tie_c, tie_b, tie_a])"
    by (simp add: three_record_groups)
  have r: "strike tie_a \<noteq> NaN"
    by (simp add: tie_a_def)
  show ?thesis
    using group_order_and_stability[OF n m r] n m r by simp
qed

subsection \<open>Partitioner: rearranged input\<close>

text \<open>The Validator never produces a strike that is NaN.\<close>

lemma to_double_not_NaN: "to_double x \<noteq> NaN"
  by (simp add: to_double_def Let_def)

lemma round_precision_not_NaN: "v \<noteq> NaN \<Longrightarrow> round_precision v \<noteq> NaN"
proof (cases v)
  case (Fin x)
  then show ?thesis
    using to_double_not_NaN[of "x * 10 ^ 4"]
    by (cases "to_double (x * 10 ^ 4)")
       (auto simp: round_precision_def DECIMAL_MULTIPLIER_def DECIMAL_PRECISION_def to_double_not_NaN)
qed (auto simp: round_precision_def DECIMAL_MULTIPLIER_def DECIMAL_PRECISION_def)

lemma cleaned_strike_not_NaN:
  "cleanedData (validateContract raw) = Some c \<Longrightarrow> strike c \<noteq> NaN"
  by (cases "raw_act_symbol raw"; cases "raw_date raw"; cases "raw_expiration raw")
     (auto simp: validateContract_def Let_def isNaN_def round_precision_not_NaN
           split: if_splits sum.splits)

lemma tie_groups:
  "groupBySymbol [tie_a, tie_b] = [(''AAPL'', [tie_a, tie_b])]"
  "groupBySymbol [tie_b, tie_a] = [(''AAPL'', [tie_b, tie_a])]"
  by (simp_all add: groupBySymbol_def group_pass_def array_sort_def compareContracts_def
      tie_a_def tie_b_def)

text \<open>
  Two records of one symbol with the same expiration, kind and strike come out in input
  order, so swapping them in the input swaps them in the group.
\<close>

theorem permuted_ties_counterexample:
  "mset [tie_b, tie_a] = mset [tie_a, tie_b] \<and> tie_a \<noteq> tie_b \<and>
   map_of (groupBySymbol [tie_a, tie_b]) ''AAPL'' = Some [tie_a, tie_b] \<and>
   map_of (groupBySymbol [tie_b, tie_a]) ''AAPL'' = Some [tie_b, tie_a] \<and>
   [tie_a, tie_b] \<noteq> [tie_b, tie_a]"
  by (simp add: tie_groups) (simp add: tie_a_def tie_b_def)

lemma map_of_groupBySymbol:
  assumes "\<forall>c \<in> set cs. strike c \<noteq> NaN"
  shows "map_of (groupBySymbol cs) k =
     (if k \<in> symbol ` set cs then Some (sort_key sort_rank (filter (\<lambda>c. symbol c = k) cs)) else None)"
proof (cases "k \<in> symbol ` set cs")
  case True
  then have "k \<in> set (map fst (groupBySymbol cs))"
    by (simp add: keys_groupBySymbol keys_group_pass del: set_map)
  then obtain g where g: "(k, g) \<in> set (groupBySymbol cs)"
    by auto
  have "distinct (map fst (groupBySymbol cs))"
    by (simp add: keys_groupBySymbol distinct_keys_group_pass)
  with g have "map_of (groupBySymbol cs) k = Some g"
    by simp
  with groupBySymbol_group[OF assms g] True show ?thesis by simp
next
  case False
  then have "k \<notin> set (map fst (groupBySymbol cs))"
    by (simp add: keys_groupBySymbol keys_group_pass del: set_map)
  then have "map_of (groupBySymbol cs) k = None"
    by (simp add: map_of_eq_None_iff)
  with False show ?thesis by simp
qed

lemma map_eq_by_rank:
  "map sort_rank xs = map sort_rank ys \<Longrightarrow> map sort_fields xs = map sort_fields ys"
proof (induction xs arbitrary: ys)
  case Nil
  then show ?case by simp
next
  case (Cons x xs)
  then obtain y ys' where ys: "ys = y # ys'" by (cases ys) auto
  with Cons show ?case by (auto simp: rank_eq_iff)
qed

lemma sorted_ranks_of_permutation:
  assumes "mset xs = mset ys"
  shows "map sort_rank (sort_key sort_rank xs) = map sort_rank (sort_key sort_rank ys)"
proof -
  have "map sort_rank (sort_key sort_rank xs) = sort (map sort_rank ys)"
    by (rule properties_for_sort[symmetric]) (simp_all add: assms)
  moreover have "map sort_rank (sort_key sort_rank ys) = sort (map sort_rank ys)"
    by (rule properties_for_sort[symmetric]) simp_all
  ultimately show ?thesis by simp
qed

text \<open>
  Claim C4, as the code has it. For CleanRecords and any rearrangement of the input, the
  partition maps have the same keys, and for every key the two groups hold the same
  records and show the same sequence of (expiration, kind, strike); they are the same
  sequence of records when no two records of that key agree on all three fields.
\<close>

theorem partition_of_permutation:
  assumes "mset cs' = mset cs"
    and "\<forall>c \<in> set cs. strike c \<noteq> NaN"
  shows "set (map fst (groupBySymbol cs')) = set (map fst (groupBySymbol cs)) \<and>
         map_option mset (map_of (groupBySymbol cs') k) = map_option mset (map_of (groupBySymbol cs) k) \<and>
         map_option (map sort_fields) (map_of (groupBySymbol cs') k)
           = map_option (map sort_fields) (map_of (groupBySymbol cs) k) \<and>
         (inj_on sort_fields {c \<in> set cs. symbol c = k} \<longrightarrow>
            map_of (groupBySymbol cs') k = map_of (groupBySymbol cs) k)"
proof -
  let ?g = "filter (\<lambda>c. symbol c = k) cs" and ?g' = "filter (\<lambda>c. symbol c = k) cs'"
  from assms(1) have st: "set cs' = set cs"
    by (rule mset_eq_setD)
  with assms(2) have nn': "\<forall>c \<in> set cs'. strike c \<noteq> NaN"
    by simp
  have keys: "set (map fst (groupBySymbol cs')) = set (map fst (groupBySymbol cs))"
    by (simp add: keys_groupBySymbol keys_group_pass st del: set_map)
  have m: "mset ?g' = mset ?g"
    by (simp add: assms(1))
  have r: "map sort_rank (sort_key sort_rank ?g') = map sort_rank (sort_key sort_rank ?g)"
    using m by (rule sorted_ranks_of_permutation)
  then have f: "map sort_fields (sort_key sort_rank ?g') = map sort_fields (sort_key sort_rank ?g)"
    by (rule map_eq_by_rank)
  have i: "sort_key sort_rank ?g' = sort_key sort_rank ?g" if "inj_on sort_fields {c \<in> set cs. symbol c = k}"
  proof -
    have "set (sort_key sort_rank ?g') \<union> set (sort_key sort_rank ?g) = {c \<in> set cs. symbol c = k}"
      by (auto simp: st)
    with that have "inj_on sort_fields (set (sort_key sort_rank ?g') \<union> set (sort_key sort_rank ?g))"
      by simp
    from inj_on_map_eq_map[OF this] f show ?thesis by simp
  qed
  show ?thesis
    using keys m f i
    by (simp add: map_of_groupBySymbol[OF assms(2)] map_of_groupBySymbol[OF nn'] st)
qed

theorem partition_of_permutation_witness:
  "mset [tie_c, tie_a] = mset [tie_a, tie_c] \<and>
   strike tie_a \<noteq> NaN \<and> strike tie_c \<noteq> NaN \<and>
   inj_on sort_fields {c \<in> set [tie_a, tie_c]. symbol c = ''AAPL''} \<and>
   set (map fst (groupBySymbol [tie_c, tie_a])) = set (map fst (groupBySymbol [tie_a, tie_c])) \<and>
   map_of (groupBySymbol [tie_c, tie_a]) ''AAPL'' = map_of (groupBySymbol [tie_a, tie_c]) ''AAPL''"
proof -
  have p: "mset [tie_c, tie_a] = mset [tie_a, tie_c]"
    by simp
  have n: "\<forall>c \<in> set [tie_a, tie_c]. strike c \<noteq> NaN"
    by (simp add: tie_a_def tie_c_def)
  have i: "inj_on sort_fields {c \<in> set [tie_a, tie_c]. symbol c = ''AAPL''}"
    by (auto simp: inj_on_def sort_fields_def tie_a_def tie_c_def)
  show ?thesis
    using partition_of_permutation[OF p n, of "''AAPL''"] p n i
    by simp
qed

subsection \<open>Retry\<close>

declare retry_loop.simps [simp del]

lemma retry_loop_success:
  assumes "attempt \<le> m" "operation attempt = (Inr v, effects)"
  shows "retry_loop operation m b attempt lastErr = (Inr v, Invoke attempt # map Effect effects)"
  using assms by (subst retry_loop.simps) simp

lemma retry_loop_failure:
  assumes "attempt < m" "operation attempt = (Inl err, effects)"
  shows "retry_loop operation m b attempt lastErr =
     (fst (retry_loop operation m b (Suc attempt) (Some (to_Error err))),
      Invoke attempt # map Effect effects @ Sleep (b * 2 ^ attempt) #
        snd (retry_loop operation m b (Suc attempt) (Some (to_Error err))))"
  using assms by (subst retry_loop.simps) (simp add: case_prod_unfold)

lemma retry_loop_exhausted:
  assumes "operation m = (Inl err, effects)"
  shows "retry_loop operation m b m lastErr = (Inl (to_Error err), Invoke m # map Effect effects)"
proof -
  have "retry_loop operation m b (Suc m) (Some (to_Error err)) = (Inl (to_Error err), [])"
    by (subst retry_loop.simps) simp
  then show ?thesis
    using assms by (subst retry_loop.simps) simp
qed

lemma control_Cons [simp]:
  "control [] = []"
  "control (Invoke n # evs) = Invoke n # control evs"
  "control (Sleep n # evs) = Sleep n # control evs"
  "control (Effect x # evs) = control evs"
  by (simp_all add: control_def)

lemma control_effects [simp]:
  "control (map Effect xs @ evs) = control evs" "control (map Effect xs) = []"
  by (simp_all add: control_def)

text \<open>The control trace of calls \<open>attempt\<close> to \<open>k\<close>, with a pause after each call but the last.\<close>

lemma retry_loop_first_success:
  assumes "attempt \<le> k" "k \<le> m"
    and "\<forall>j. attempt \<le> j \<and> j < k \<longrightarrow> isl (fst (operation j))"
    and "fst (operation k) = Inr v"
  shows "fst (retry_loop operation m b attempt lastErr) = Inr v \<and>
         control (snd (retry_loop operation m b attempt lastErr)) =
           concat (map (\<lambda>n. [Invoke n, Sleep (b * 2 ^ n)]) [attempt..<k]) @ [Invoke k]"
  using assms
proof (induction "k - attempt" arbitrary: attempt lastErr)
  case 0
  then have eq: "attempt = k" by simp
  obtain effects where "operation k = (Inr v, effects)"
    using 0 by (cases "operation k") auto
  from retry_loop_success[where operation = operation and attempt = k and m = m, OF \<open>k \<le> m\<close> this]
  show ?case
    by (simp add: eq)
next
  case (Suc d)
  then have lt: "attempt < k" by simp
  with Suc.prems have "isl (fst (operation attempt))" by simp
  then obtain err effects where op: "operation attempt = (Inl err, effects)"
    by (cases "operation attempt") (auto simp: isl_def)
  have am: "attempt < m" using lt Suc.prems by simp
  have ih: "fst (retry_loop operation m b (Suc attempt) (Some (to_Error err))) = Inr v \<and>
         control (snd (retry_loop operation m b (Suc attempt) (Some (to_Error err)))) =
           concat (map (\<lambda>n. [Invoke n, Sleep (b * 2 ^ n)]) [Suc attempt..<k]) @ [Invoke k]"
    using Suc.hyps(2) Suc.prems lt by (intro Suc.hyps(1)) auto
  show ?case
    using ih lt
    by (simp add: retry_loop_failure[where operation = operation and attempt = attempt, OF am op]
        upt_conv_Cons)
qed

lemma retry_loop_all_fail:
  assumes "attempt \<le> m"
    and "\<forall>j. attempt \<le> j \<and> j \<le> m \<longrightarrow> isl (fst (operation j))"
  shows "fst (retry_loop operation m b attempt lastErr) = Inl (to_Error (projl (fst (operation m)))) \<and>
         control (snd (retry_loop operation m b attempt lastErr)) =
           concat (map (\<lambda>n. [Invoke n, Sleep (b * 2 ^ n)]) [attempt..<m]) @ [Invoke m]"
  using assms
proof (induction "m - attempt" arbitrary: attempt lastErr)
  case 0
  then have eq: "attempt = m" by simp
  from 0 have "isl (fst (operation m))" by simp
  then obtain err effects where op: "operation m = (Inl err, effects)"
    by (cases "operation m") (auto simp: isl_def)
  from retry_loop_exhausted[where operation = operation and m = m, OF op] show ?case
    by (simp add: eq op)
next
  case (Suc d)
  then have am: "attempt < m" by simp
  from Suc.prems have "isl (fst (operation attempt))" by simp
  then obtain err effects where op: "operation attempt = (Inl err, effects)"
    by (cases "operation attempt") (auto simp: isl_def)
  have ih: "fst (retry_loop operation m b (Suc attempt) (Some (to_Error err)))
              = Inl (to_Error (projl (fst (operation m)))) \<and>
         control (snd (retry_loop operation m b (Suc attempt) (Some (to_Error err)))) =
           concat (map (\<lambda>n. [Invoke n, Sleep (b * 2 ^ n)]) [Suc attempt..<m]) @ [Invoke m]"
    using Suc.hyps(2) Suc.prems am by (intro Suc.hyps(1)) auto
  show ?case
    using ih am
    by (simp add: retry_loop_failure[where operation = operation and attempt = attempt, OF am op]
        upt_conv_Cons)
qed

lemma retry_loop_invocations:
  "length (filter is_Invoke (snd (retry_loop operation m b attempt lastErr))) \<le> Suc m - attempt"
proof (induction "Suc m - attempt" arbitrary: attempt lastErr)
  case 0
  then have "\<not> attempt \<le> m" by simp
  then show ?case
    by (subst retry_loop.simps) (simp split: option.splits)
next
  case (Suc d)
  then have le: "attempt \<le> m" by simp
  have fe: "\<And>xs. filter is_Invoke (map Effect xs) = []"
    by (simp add: filter_empty_conv)
  obtain r effects where op: "operation attempt = (r, effects)"
    by (cases "operation attempt")
  show ?case
  proof (cases r)
    case (Inr v)
    with op retry_loop_success[where operation = operation and attempt = attempt, OF le] show ?thesis
      using le by (simp add: fe)
  next
    case (Inl err)
    have ih: "length (filter is_Invoke (snd (retry_loop operation m b (Suc attempt) (Some (to_Error err)))))
                \<le> Suc m - Suc attempt"
      using Suc.hyps(2) by (intro Suc.hyps(1)) simp
    show ?thesis
    proof (cases "attempt < m")
      case True
      from retry_loop_failure[where operation = operation and attempt = attempt, OF True] op Inl ih
      show ?thesis
        using le by (simp add: fe)
    next
      case False
      with le have "attempt = m" by simp
      with retry_loop_exhausted[of operation m err effects b lastErr] op Inl show ?thesis
        by (simp add: fe)
    qed
  qed
qed

text \<open>
  Claim C8. With the default parameters the operation is called at most four times. If
  call \<open>k \<le> 3\<close> is the first to succeed, its value is returned at once, after calls
  \<open>0..k\<close> with a pause of \<open>1000 \<times> 2\<^sup>n\<close> milliseconds behind each failed call \<open>n\<close>.
  If all four calls fail, the error of the fourth is thrown (wrapped in an \<open>Error\<close> when
  it is not one), after pauses of 1000, 2000 and 4000 milliseconds and none behind the
  fourth call.
\<close>

theorem retry_default_policy:
  fixes operation :: "nat \<Rightarrow> (message thrown + 'a) \<times> 'e list"
  shows "length (filter is_Invoke (snd (retry_default operation))) \<le> 4 \<and>
     (k \<le> 3 \<and> (\<forall>j < k. isl (fst (operation j))) \<and> fst (operation k) = Inr v \<longrightarrow>
        fst (retry_default operation) = Inr v \<and>
        control (snd (retry_default operation)) = backoff_schedule k) \<and>
     ((\<forall>j \<le> 3. isl (fst (operation j))) \<longrightarrow>
        fst (retry_default operation) = Inl (to_Error (projl (fst (operation 3)))) \<and>
        control (snd (retry_default operation)) = backoff_schedule 3)"
proof -
  have a: "length (filter is_Invoke (snd (retry_default operation))) \<le> 4"
    using retry_loop_invocations[of operation 3 1000 0 None]
    by (simp add: retry_default_def retry_def)
  have b: "fst (retry_default operation) = Inr v \<and>
        control (snd (retry_default operation)) = backoff_schedule k"
    if "k \<le> 3" "\<forall>j < k. isl (fst (operation j))" "fst (operation k) = Inr v"
    using retry_loop_first_success[of 0 k 3 operation v 1000 None] that
    by (simp add: retry_default_def retry_def backoff_schedule_def)
  have c: "fst (retry_default operation) = Inl (to_Error (projl (fst (operation 3)))) \<and>
        control (snd (retry_default operation)) = backoff_schedule 3"
    if "\<forall>j \<le> 3. isl (fst (operation j))"
    using retry_loop_all_fail[of 0 3 operation 1000 None] that
    by (simp add: retry_default_def retry_def backoff_schedule_def)
  from a b c show ?thesis by blast
qed

theorem retry_default_policy_witness:
  "fst (flaky 2) = Inr 2 \<and> isl (fst (flaky 0)) \<and> isl (fst (flaky 1)) \<and>
   fst (retry_default flaky) = Inr 2 \<and>
   control (snd (retry_default flaky)) = [Invoke 0, Sleep 1000, Invoke 1, Sleep 2000, Invoke 2] \<and>
   isl (fst (hopeless 3)) \<and>
   fst (retry_default hopeless) = Inl (ErrorObj (Text ''disk full'')) \<and>
   control (snd (retry_default hopeless)) =
     [Invoke 0, Sleep 1000, Invoke 1, Sleep 2000, Invoke 2, Sleep 4000, Invoke 3]"
proof -
  have f: "\<forall>j<2. isl (fst (flaky j))" "fst (flaky 2) = Inr 2"
    by (simp_all add: flaky_def)
  have h: "\<forall>j\<le>3. isl (fst (hopeless j))"
    by (simp add: hopeless_def)
  have s: "backoff_schedule 2 = ([Invoke 0, Sleep 1000, Invoke 1, Sleep 2000, Invoke 2] :: nat trace_event list)"
    "backoff_schedule 3 =
       ([Invoke 0, Sleep 1000, Invoke 1, Sleep 2000, Invoke 2, Sleep 4000, Invoke 3] :: nat trace_event list)"
    by (simp_all add: backoff_schedule_def upt_rec)
  show ?thesis
    using retry_default_policy[of flaky 2 2] retry_default_policy[of hopeless 0 0] f h
    by (simp add: s) (simp add: flaky_def hopeless_def)
qed


subsection \<open>The persistence runner, wave by wave\<close>

lemma processSymbol_stats:
  "processSymbol e st k g =
     (fst (processSymbol e initial_stats k g),
      (if isl (fst (processSymbol e initial_stats k g)) then st
       else st\<lparr>filesSaved := filesSaved st + 1\<rparr>),
      snd (snd (processSymbol e initial_stats k g)))"
  by (auto simp: processSymbol_def Let_def split: option.splits prod.splits sum.splits)

lemma launch_batch_eq:
  "launch_batch e groups batch st =
     (map (\<lambda>k. (k, key_outcome e groups k)) batch,
      st\<lparr>stats := (stats st)\<lparr>filesSaved := filesSaved (stats st) +
               length (filter (\<lambda>k. \<not> isl (key_outcome e groups k)) batch)\<rparr>,
         trace := trace st @ concat (map (key_trace e groups) batch)\<rparr>)"
proof (induction batch arbitrary: st)
  case Nil
  show ?case by simp
next
  case (Cons k batch)
  show ?case
    by (subst launch_batch.simps, subst processSymbol_stats)
       (simp add: Cons key_outcome_def key_trace_def[abs_def])
qed

lemma record_outcome_eq:
  "record_outcome k outcome st =
     st\<lparr>results := results st @ [result_of_outcome k outcome],
        stats := (stats st)\<lparr>stats_errors := stats_errors (stats st) @ errors_of_outcome k outcome\<rparr>\<rparr>"
  by (cases outcome)
     (simp_all add: record_outcome_def result_of_outcome_def errors_of_outcome_def createError_def
        Let_def)

lemma record_outcomes_eq:
  "foldl (\<lambda>s (k, outcome). record_outcome k outcome s) st (map (\<lambda>k. (k, f k)) keys) =
     st\<lparr>results := results st @ map (\<lambda>k. result_of_outcome k (f k)) keys,
        stats := (stats st)\<lparr>stats_errors := stats_errors (stats st) @
                   concat (map (\<lambda>k. errors_of_outcome k (f k)) keys)\<rparr>\<rparr>"
proof (induction keys arbitrary: st)
  case Nil
  show ?case by simp
next
  case (Cons k keys)
  let ?F = "\<lambda>s (k, outcome). record_outcome k outcome s"
  have "foldl ?F st (map (\<lambda>k. (k, f k)) (k # keys)) =
        foldl ?F (record_outcome k (f k) st) (map (\<lambda>k. (k, f k)) keys)"
    by simp
  also note Cons[of "record_outcome k (f k) st"]
  finally show ?case
    by (simp add: record_outcome_eq)
qed

lemma run_wave_settle: "run_wave e groups batch st = settle e groups batch st"
  by (simp add: run_wave_def launch_batch_eq record_outcomes_eq settle_def)

lemma settle_append:
  "settle e groups (xs @ ys) st = settle e groups ys (settle e groups xs st)"
  by (simp add: settle_def)

lemma settle_Nil: "settle e groups [] st = st"
  by (simp add: settle_def)

declare process_waves.simps [simp del]

lemma process_waves_settle:
  assumes "0 < c"
  shows "process_waves e groups symbols c i st = Some (settle e groups (drop i symbols) st)"
proof (induction "length symbols - i" arbitrary: i st rule: less_induct)
  case less
  show ?case
  proof (cases "i < length symbols")
    case False
    then show ?thesis by (subst process_waves.simps) (simp add: settle_Nil)
  next
    case True
    have d: "take c (drop i symbols) @ drop (i + c) symbols = drop i symbols"
      by (metis add.commute append_take_drop_id drop_drop)
    have "process_waves e groups symbols c i st =
          process_waves e groups symbols c (i + c) (run_wave e groups (take c (drop i symbols)) st)"
      using True assms by (subst process_waves.simps) simp
    also have "\<dots> = Some (settle e groups (drop (i + c) symbols)
                          (run_wave e groups (take c (drop i symbols)) st))"
      using True assms by (intro less) simp
    also have "\<dots> = Some (settle e groups (drop i symbols) st)"
      by (simp add: run_wave_settle flip: settle_append add: d)
    finally show ?thesis .
  qed
qed

lemma processSymbols_settle:
  assumes "0 < MAX_CONCURRENCY e \<or> groups = []"
  shows "processSymbols e groups st0 =
           Some (settle e groups (map fst groups) \<lparr>results = [], stats = st0, trace = []\<rparr>)"
proof (cases "groups = []")
  case True
  then show ?thesis
    by (simp add: processSymbols_def settle_Nil) (subst process_waves.simps, simp)
next
  case False
  with assms have "0 < min (MAX_CONCURRENCY e) (length groups)" by simp
  then show ?thesis
    by (simp add: processSymbols_def process_waves_settle)
qed

subsection \<open>One key\<close>

lemma ensureDir_events: "snd (ensureDir e d) = [FsMkdir d]"
  by (simp add: ensureDir_def split: option.splits mkdir_failure.splits)

lemma ensureDir_ok: "\<not> isl (fst (ensureDir e d)) \<Longrightarrow> ensureDir e d = (Inr (), [FsMkdir d])"
  by (auto simp: ensureDir_def split: option.splits mkdir_failure.splits if_splits)

lemma writeJsonFile_too_large:
  "MAX_FILE_SIZE < byte_length buf \<Longrightarrow>
   writeJsonFile e f buf n = (Inl (ErrorObj (FileTooLarge (byte_length buf) MAX_FILE_SIZE)), [])"
  by (simp add: writeJsonFile_def)


lemma retry_loop_constant_failure:
  assumes "\<forall>n. operation n = (Inl x, [])" "attempt \<le> m"
  shows "retry_loop operation m b attempt lastErr =
     (Inl (to_Error x), concat (map (\<lambda>n. [Invoke n, Sleep (b * 2 ^ n)]) [attempt..<m]) @ [Invoke m])"
  using assms(2)
proof (induction "m - attempt" arbitrary: attempt lastErr)
  case 0
  then have eq: "attempt = m" by simp
  have op: "operation m = (Inl x, [])" using assms(1) by blast
  from retry_loop_exhausted[where operation = operation and m = m, OF op]
  show ?case by (simp add: eq)
next
  case (Suc d)
  then have am: "attempt < m" by simp
  have op: "operation attempt = (Inl x, [])" using assms(1) by blast
  have "retry_loop operation m b (Suc attempt) (Some (to_Error x)) =
     (Inl (to_Error x), concat (map (\<lambda>n. [Invoke n, Sleep (b * 2 ^ n)]) [Suc attempt..<m]) @ [Invoke m])"
    using Suc.hyps(2) am by (intro Suc.hyps(1)) auto
  then show ?case
    using am
    by (simp add: retry_loop_failure[where operation = operation and attempt = attempt, OF am op]
        upt_conv_Cons)
qed

lemma retry_default_constant_failure:
  assumes "\<forall>n. operation n = (Inl x, [])"
  shows "retry_default operation =
     (Inl (to_Error x), [Invoke 0, Sleep 1000, Invoke 1, Sleep 2000, Invoke 2, Sleep 4000, Invoke 3])"
  using retry_loop_constant_failure[OF assms, of 0 3 1000 None]
  by (simp add: retry_default_def retry_def upt_rec)


lemma processSymbol_too_large:
  assumes "MAX_FILE_SIZE < json_length e (SymbolArtifact (symbol_data k cs))"
    and "\<not> isl (fst (ensureDir e (dirname (symbol_file e k))))"
  shows "processSymbol e st k (Some cs) =
     (Inl (ErrorObj (SymbolProcessingFailed k
        (FileTooLarge (json_length e (SymbolArtifact (symbol_data k cs))) MAX_FILE_SIZE))),
      st,
      [Effect (FsMkdir (dirname (symbol_file e k))),
       Invoke 0, Sleep 1000, Invoke 1, Sleep 2000, Invoke 2, Sleep 4000, Invoke 3])"
proof -
  let ?buf = "convertJsonToBuffer e (SymbolArtifact (symbol_data k cs))"
  have big: "MAX_FILE_SIZE < byte_length ?buf"
    using assms(1) by (simp add: convertJsonToBuffer_def)
  have "\<forall>n. writeJsonFile e (symbol_file e k) ?buf n =
           (Inl (ErrorObj (FileTooLarge (byte_length ?buf) MAX_FILE_SIZE)), [])"
    using big by (simp add: writeJsonFile_too_large)
  from retry_default_constant_failure[OF this]
  have r: "retry_default (writeJsonFile e (symbol_file e k) ?buf) =
     (Inl (ErrorObj (FileTooLarge (byte_length ?buf) MAX_FILE_SIZE)),
      [Invoke 0, Sleep 1000, Invoke 1, Sleep 2000, Invoke 2, Sleep 4000, Invoke 3])"
    by simp
  show ?thesis
    by (simp add: processSymbol_def Let_def ensureDir_ok[OF assms(2)] r flip: symbol_file_def)
       (simp add: convertJsonToBuffer_def)
qed








subsection \<open>The size ceiling\<close>

text \<open>
  Claim C1, as the code has it. The size check sits inside the retried operation. A
  payload over the ceiling is rejected by each of the four calls before \<open>fs.writeFile\<close>
  is reached, with pauses of 1000, 2000 and 4000 milliseconds in between; nothing is
  written; the key ends with a failed result, and a \<open>file_write\<close> error is recorded in
  the statistics.
\<close>

theorem oversize_payload_retried_then_recorded:
  assumes "MAX_FILE_SIZE < json_length e (SymbolArtifact (symbol_data k cs))"
    and "\<not> isl (fst (ensureDir e (dirname (symbol_file e k))))"
    and "map_of groups k = Some cs"
    and "0 < MAX_CONCURRENCY e"
  shows "processSymbol e st k (Some cs) =
           (Inl (ErrorObj (SymbolProcessingFailed k
              (FileTooLarge (json_length e (SymbolArtifact (symbol_data k cs))) MAX_FILE_SIZE))),
            st,
            [Effect (FsMkdir (dirname (symbol_file e k))),
             Invoke 0, Sleep 1000, Invoke 1, Sleep 2000, Invoke 2, Sleep 4000, Invoke 3]) \<and>
         (\<exists>final. processSymbols e groups st0 = Some final \<and>
            \<lparr>result_symbol = k, success = False, result_contractCount = 0, fileSize = 0,
             filePath = [],
             error = Some (FailedToProcessSymbol k (ErrorObj (SymbolProcessingFailed k
               (FileTooLarge (json_length e (SymbolArtifact (symbol_data k cs))) MAX_FILE_SIZE))))\<rparr>
              \<in> set (results final) \<and>
            \<lparr>error_type = file_write,
             error_message = FailedToProcessSymbol k (ErrorObj (SymbolProcessingFailed k
               (FileTooLarge (json_length e (SymbolArtifact (symbol_data k cs))) MAX_FILE_SIZE))),
             error_row = None, error_symbol = Some k\<rparr>
              \<in> set (stats_errors (stats final)))"
proof -
  let ?msg = "SymbolProcessingFailed k
      (FileTooLarge (json_length e (SymbolArtifact (symbol_data k cs))) MAX_FILE_SIZE)"
  let ?res = "\<lparr>result_symbol = k, success = False, result_contractCount = 0, fileSize = 0,
             filePath = [], error = Some (FailedToProcessSymbol k (ErrorObj ?msg))\<rparr>"
  let ?err = "\<lparr>error_type = file_write, error_message = FailedToProcessSymbol k (ErrorObj ?msg),
             error_row = None, error_symbol = Some k\<rparr>"
  note p = processSymbol_too_large[OF assms(1,2)]
  have ko: "key_outcome e groups k = Inl (ErrorObj ?msg)"
    by (simp add: key_outcome_def assms(3) p)
  have kin: "k \<in> set (map fst groups)"
    using assms(3) by (metis map_of_eq_None_iff option.distinct(1) set_map)
  let ?final = "settle e groups (map fst groups) \<lparr>results = [], stats = st0, trace = []\<rparr>"
  have ps: "processSymbols e groups st0 = Some ?final"
    using assms(4) by (simp add: processSymbols_settle)
  have ro: "result_of_outcome k (key_outcome e groups k) = ?res"
    by (simp add: ko result_of_outcome_def)
  have eo: "errors_of_outcome k (key_outcome e groups k) = [?err]"
    by (simp add: ko errors_of_outcome_def createError_def)
  have res: "results ?final = map (\<lambda>x. result_of_outcome x (key_outcome e groups x)) (map fst groups)"
    by (simp add: settle_def)
  have "result_of_outcome k (key_outcome e groups k) \<in> set (results ?final)"
    unfolding res using kin by (simp only: set_map) (rule imageI)
  then have r: "?res \<in> set (results ?final)"
    by (simp only: ro)
  have ers: "stats_errors (stats ?final) =
      stats_errors st0 @ concat (map (\<lambda>x. errors_of_outcome x (key_outcome e groups x)) (map fst groups))"
    by (simp add: settle_def)
  have "set (errors_of_outcome k (key_outcome e groups k)) \<subseteq> set (stats_errors (stats ?final))"
    unfolding ers using kin by auto
  then have er: "?err \<in> set (stats_errors (stats ?final))"
    by (simp only: eo) simp
  from ps r er have "\<exists>final. processSymbols e groups st0 = Some final \<and>
      ?res \<in> set (results final) \<and> ?err \<in> set (stats_errors (stats final))"
    by blast
  with p show ?thesis
    by (rule conjI)
qed

lemma sample_paths:
  "join [''/api'', SYMBOLS_DIR, ''AAPL.json''] = ''/api/symbols/AAPL.json''"
  "join [''/api'', SYMBOLS_DIR, ''MSFT.json''] = ''/api/symbols/MSFT.json''"
  "join [''/api'', SYMBOLS_DIR, ''TSLA.json''] = ''/api/symbols/TSLA.json''"
  "join [''/api'', SYMBOLS] = ''/api/symbols.json''"
  "join [''/api'', METADATA] = ''/api/metadata.json''"
  "dirname ''/api/symbols/AAPL.json'' = ''/api/symbols''"
  "dirname ''/api/symbols/MSFT.json'' = ''/api/symbols''"
  "dirname ''/api/symbols/TSLA.json'' = ''/api/symbols''"
  "dirname ''/api/symbols.json'' = ''/api''"
  "dirname ''/api/metadata.json'' = ''/api''"
  by code_simp+

lemma ensureDir_always: "fs_mkdir e = (\<lambda>d. None) \<Longrightarrow> \<not> isl (fst (ensureDir e d))"
  by (simp add: ensureDir_def)

lemma tie_a_oversize:
  "processSymbol oversize_env initial_stats ''AAPL'' (Some [tie_a]) =
     (Inl (ErrorObj (SymbolProcessingFailed ''AAPL'' (FileTooLarge 52428801 MAX_FILE_SIZE))),
      initial_stats,
      [Effect (FsMkdir ''/api/symbols''),
       Invoke 0, Sleep 1000, Invoke 1, Sleep 2000, Invoke 2, Sleep 4000, Invoke 3])"
proof -
  have a: "MAX_FILE_SIZE < json_length oversize_env (SymbolArtifact (symbol_data ''AAPL'' [tie_a]))"
    by (simp add: oversize_env_def MAX_FILE_SIZE_def)
  have b: "\<not> isl (fst (ensureDir oversize_env (dirname (symbol_file oversize_env ''AAPL''))))"
    by (rule ensureDir_always) (simp add: oversize_env_def)
  have p: "dirname (symbol_file oversize_env ''AAPL'') = ''/api/symbols''"
    by (simp add: symbol_file_def oversize_env_def sample_paths)
  from processSymbol_too_large[OF a b] show ?thesis
    by (simp only: p) (simp add: oversize_env_def)
qed

text \<open>One byte over the ceiling: four calls and three pauses before the key is given up.\<close>

theorem oversize_payload_retried_counterexample:
  "MAX_FILE_SIZE < json_length oversize_env (SymbolArtifact (symbol_data ''AAPL'' [tie_a])) \<and>
   length (filter is_Invoke (snd (snd (processSymbol oversize_env initial_stats ''AAPL'' (Some [tie_a]))))) = 4 \<and>
   Sleep 1000 \<in> set (snd (snd (processSymbol oversize_env initial_stats ''AAPL'' (Some [tie_a])))) \<and>
   Sleep 2000 \<in> set (snd (snd (processSymbol oversize_env initial_stats ''AAPL'' (Some [tie_a])))) \<and>
   Sleep 4000 \<in> set (snd (snd (processSymbol oversize_env initial_stats ''AAPL'' (Some [tie_a]))))"
  by (simp add: tie_a_oversize) (simp add: oversize_env_def MAX_FILE_SIZE_def)

theorem oversize_payload_retried_then_recorded_witness:
  "MAX_FILE_SIZE < json_length oversize_env (SymbolArtifact (symbol_data ''AAPL'' [tie_a])) \<and>
   \<not> isl (fst (ensureDir oversize_env (dirname (symbol_file oversize_env ''AAPL'')))) \<and>
   map_of [(''AAPL'', [tie_a])] ''AAPL'' = Some [tie_a] \<and>
   0 < MAX_CONCURRENCY oversize_env \<and>
   (\<exists>final. processSymbols oversize_env [(''AAPL'', [tie_a])] initial_stats = Some final \<and>
      \<lparr>result_symbol = ''AAPL'', success = False, result_contractCount = 0, fileSize = 0,
       filePath = [],
       error = Some (FailedToProcessSymbol ''AAPL'' (ErrorObj (SymbolProcessingFailed ''AAPL''
         (FileTooLarge 52428801 MAX_FILE_SIZE))))\<rparr> \<in> set (results final) \<and>
      \<lparr>error_type = file_write,
       error_message = FailedToProcessSymbol ''AAPL'' (ErrorObj (SymbolProcessingFailed ''AAPL''
         (FileTooLarge 52428801 MAX_FILE_SIZE))),
       error_row = None, error_symbol = Some ''AAPL''\<rparr> \<in> set (stats_errors (stats final)))"
proof -
  have a: "MAX_FILE_SIZE < json_length oversize_env (SymbolArtifact (symbol_data ''AAPL'' [tie_a]))"
    by (simp add: oversize_env_def MAX_FILE_SIZE_def)
  have b: "\<not> isl (fst (ensureDir oversize_env (dirname (symbol_file oversize_env ''AAPL''))))"
    by (rule ensureDir_always) (simp add: oversize_env_def)
  have c: "map_of [(''AAPL'', [tie_a])] ''AAPL'' = Some [tie_a]"
    by simp
  have d: "0 < MAX_CONCURRENCY oversize_env"
    by (simp add: oversize_env_def)
  have j: "json_length oversize_env (SymbolArtifact (symbol_data ''AAPL'' [tie_a])) = 52428801"
    by (simp add: oversize_env_def)
  note t = oversize_payload_retried_then_recorded[OF a b c d, of initial_stats initial_stats, unfolded j]
  from conjunct2[OF t] a b c d show ?thesis
    by (intro conjI)
qed

subsection \<open>Failure of one key\<close>






subsection \<open>Failure of an aggregate write\<close>












subsection \<open>Binary64 rounding: exponent and error bound\<close>

lemma powi_diff_nat: "(2::rat) powi (int a - int b) = 2 ^ a / 2 ^ b"
  by (simp add: power_int_diff)

lemma powi_less_imp_less:
  assumes "(2::rat) powi a < 2 powi b"
  shows "a < b"
proof (rule ccontr)
  assume "\<not> a < b"
  then have "b \<le> a" by simp
  then have "(2::rat) powi b \<le> 2 powi a"
    by (intro power_int_increasing) simp_all
  with assms show False by simp
qed

lemma floorlog_bounds_rat:
  assumes "0 < (p::int)"
  shows "(2::rat) ^ (floorlog 2 (nat p) - 1) \<le> of_int p" "of_int p < (2::rat) ^ floorlog 2 (nat p)"
    "1 \<le> floorlog 2 (nat p)"
proof -
  have np: "(of_nat (nat p) :: rat) = of_int p"
    using assms by simp
  have b: "2 ^ (floorlog 2 (nat p) - 1) \<le> nat p \<and> nat p < 2 ^ floorlog 2 (nat p)"
    using assms by (intro floorlog_bounds) auto
  from b have "(of_nat (2 ^ (floorlog 2 (nat p) - 1)) :: rat) \<le> of_nat (nat p)"
    by (simp only: of_nat_le_iff)
  then show "(2::rat) ^ (floorlog 2 (nat p) - 1) \<le> of_int p"
    by (simp add: np)
  from b have "(of_nat (nat p) :: rat) < of_nat (2 ^ floorlog 2 (nat p))"
    by (simp only: of_nat_less_iff)
  then show "of_int p < (2::rat) ^ floorlog 2 (nat p)"
    by (simp add: np)
  show "1 \<le> floorlog 2 (nat p)"
    using assms by (simp add: floorlog_def)
qed

lemma binade_bounds:
  assumes "0 < x"
  shows "2 powi binade x \<le> x \<and> x < 2 powi (binade x + 1)"
proof -
  obtain p q where pq: "quotient_of x = (p, q)" by (cases "quotient_of x")
  then have q: "0 < q" by (rule quotient_of_denom_pos)
  have x: "x = of_int p / of_int q" using pq by (rule quotient_of_div)
  with assms q have p: "0 < p" by (simp add: zero_less_divide_iff)
  define bp where "bp = floorlog 2 (nat p)"
  define bq where "bq = floorlog 2 (nat q)"
  note pb = floorlog_bounds_rat[OF p, folded bp_def]
  note qb = floorlog_bounds_rat[OF q, folded bq_def]
  have qr: "0 < (of_int q :: rat)" and pr: "0 < (of_int p :: rat)" using p q by simp_all
  have lo: "(2::rat) powi (int bp - int bq - 1) \<le> x"
  proof -
    have "int bp - int bq - 1 = int (bp - 1) - int bq"
      using pb(3) by simp
    then have "(2::rat) powi (int bp - int bq - 1) = 2 ^ (bp - 1) / 2 ^ bq"
      by (simp only: powi_diff_nat)
    also have "\<dots> \<le> of_int p / 2 ^ bq"
      using pb(1) by (simp add: divide_right_mono)
    also have "\<dots> \<le> of_int p / of_int q"
      using qb(2) qr pr by (intro divide_left_mono) (simp_all add: less_imp_le)
    finally show ?thesis by (simp add: x)
  qed
  have hi: "x < (2::rat) powi (int bp - int bq + 1)"
  proof -
    have "x = of_int p / of_int q" by (rule x)
    also have "\<dots> < 2 ^ bp / of_int q"
      using pb(2) qr by (simp add: divide_strict_right_mono)
    also have "\<dots> \<le> 2 ^ bp / 2 ^ (bq - 1)"
      using qb(1) qr by (intro divide_left_mono) simp_all
    also have "\<dots> = (2::rat) powi (int bp - int (bq - 1))"
      by (simp only: powi_diff_nat)
    also have "int bp - int (bq - 1) = int bp - int bq + 1"
      using qb(3) by simp
    finally show ?thesis .
  qed
  have b: "binade x = (if 2 powi (int bp - int bq) \<le> x then int bp - int bq else int bp - int bq - 1)"
    by (simp add: binade_def pq bp_def bq_def Let_def)
  show ?thesis
  proof (cases "2 powi (int bp - int bq) \<le> x")
    case True
    with b hi show ?thesis by simp
  next
    case False
    with b lo show ?thesis by (simp add: not_le)
  qed
qed

lemma binade_unique:
  assumes "0 < x" "2 powi e \<le> x" "x < 2 powi (e + 1)"
  shows "binade x = e"
proof -
  from binade_bounds[OF assms(1)] have b: "2 powi binade x \<le> x" "x < 2 powi (binade x + 1)"
    by simp_all
  have "(2::rat) powi e < 2 powi (binade x + 1)"
    using assms(2) b(2) by simp
  then have 1: "e < binade x + 1"
    by (rule powi_less_imp_less)
  have "(2::rat) powi binade x < 2 powi (e + 1)"
    using assms(3) b(1) by simp
  then have 2: "binade x < e + 1"
    by (rule powi_less_imp_less)
  from 1 2 show ?thesis by simp
qed

lemma round_half_even_error: "\<bar>of_int (round_half_even y) - y\<bar> \<le> 1 / 2"
proof -
  have "of_int \<lfloor>y\<rfloor> \<le> y" "y < of_int \<lfloor>y\<rfloor> + 1"
    by linarith+
  then show ?thesis
    by (auto simp: round_half_even_def Let_def abs_le_iff)
qed

lemma to_double_finite:
  assumes "x \<noteq> 0" "\<bar>x\<bar> < 2 ^ 1023"
  shows "\<exists>r. to_double x = Fin r \<and> \<bar>r - x\<bar> \<le> 2 powi (max (binade \<bar>x\<bar>) (- 1022) - 53)"
proof -
  define e where "e = max (binade \<bar>x\<bar>) (- 1022)"
  define ulp :: rat where "ulp = 2 powi (e - 52)"
  define r where "r = of_int (round_half_even (x / ulp)) * ulp"
  have ax: "0 < \<bar>x\<bar>" using assms(1) by simp
  from binade_bounds[OF ax] have bb: "2 powi binade \<bar>x\<bar> \<le> \<bar>x\<bar>" by simp
  then have "(2::rat) powi binade \<bar>x\<bar> < 2 powi 1023"
    using assms(2) by simp
  then have "binade \<bar>x\<bar> < 1023" by (rule powi_less_imp_less)
  then have e: "e \<le> 1022" by (simp add: e_def)
  have up: "0 < ulp" by (simp add: ulp_def)
  have half: "ulp / 2 = 2 powi (e - 53)"
  proof -
    have "(2::rat) powi (e - 52) = 2 powi ((e - 53) + 1)" by simp
    also have "\<dots> = 2 powi (e - 53) * 2" by (subst power_int_add) simp_all
    finally show ?thesis by (simp add: ulp_def)
  qed
  have "\<bar>r - x\<bar> = \<bar>of_int (round_half_even (x / ulp)) - x / ulp\<bar> * ulp"
  proof -
    have "r - x = (of_int (round_half_even (x / ulp)) - x / ulp) * ulp"
      using up by (simp add: r_def field_simps)
    then show ?thesis using up by (simp add: abs_mult)
  qed
  also have "\<dots> \<le> (1 / 2) * ulp"
    using round_half_even_error[of "x / ulp"] up by (intro mult_right_mono) simp_all
  finally have err: "\<bar>r - x\<bar> \<le> 2 powi (e - 53)"
    using half by simp
  have "(2::rat) powi (e - 53) \<le> 2 powi 969"
    using e by (intro power_int_increasing) simp_all
  with err have "\<bar>r\<bar> \<le> \<bar>x\<bar> + 2 powi 969" by linarith
  also have "\<dots> < 2 ^ 1023 + 2 ^ 969" using assms(2) by simp
  also have "\<dots> < (2::rat) ^ 1024" by simp
  finally have "\<not> 2 ^ 1024 \<le> \<bar>r\<bar>" by simp
  then have "to_double x = Fin r"
    using assms(1) by (simp add: to_double_def Let_def r_def ulp_def e_def)
  with err show ?thesis by (auto simp: e_def)
qed

lemma to_double_relative:
  assumes "2 powi (- 1022) \<le> \<bar>x\<bar>" "\<bar>x\<bar> < 2 ^ 1023"
  shows "\<exists>r. to_double x = Fin r \<and> \<bar>r - x\<bar> \<le> \<bar>x\<bar> / 2 ^ 53"
proof -
  have "(0::rat) < 2 powi (- 1022)" by simp
  with assms(1) have ax: "0 < \<bar>x\<bar>" by linarith
  then have nz: "x \<noteq> 0" by simp
  from binade_bounds[OF ax] have bb: "2 powi binade \<bar>x\<bar> \<le> \<bar>x\<bar>" "\<bar>x\<bar> < 2 powi (binade \<bar>x\<bar> + 1)"
    by simp_all
  have "(2::rat) powi (- 1022) < 2 powi (binade \<bar>x\<bar> + 1)"
    using assms(1) bb(2) by simp
  then have "- 1022 < binade \<bar>x\<bar> + 1" by (rule powi_less_imp_less)
  then have m: "max (binade \<bar>x\<bar>) (- 1022) = binade \<bar>x\<bar>" by simp
  from to_double_finite[OF nz assms(2)] obtain r where
    r: "to_double x = Fin r" "\<bar>r - x\<bar> \<le> 2 powi (binade \<bar>x\<bar> - 53)"
    by (auto simp: m)
  have "(2::rat) powi (binade \<bar>x\<bar> - 53) = 2 powi binade \<bar>x\<bar> / 2 ^ 53"
    by (simp add: power_int_diff)
  also have "\<dots> \<le> \<bar>x\<bar> / 2 ^ 53"
    using bb(1) by (simp add: divide_right_mono)
  finally show ?thesis using r by auto
qed

lemma to_double_absolute:
  assumes "\<bar>x\<bar> < 2 ^ 1023"
  shows "\<exists>r. to_double x = Fin r \<and> \<bar>r - x\<bar> \<le> \<bar>x\<bar> / 2 ^ 53 + 1"
proof (cases "x = 0")
  case True
  then show ?thesis by (simp add: to_double_def)
next
  case False
  show ?thesis
  proof (cases "2 powi (- 1022) \<le> \<bar>x\<bar>")
    case True
    from to_double_relative[OF True assms] show ?thesis
      by (auto intro: order_trans)
  next
    case False
    then have small: "\<bar>x\<bar> < 2 powi (- 1022)" by simp
    have ax: "0 < \<bar>x\<bar>" using \<open>x \<noteq> 0\<close> by simp
    from binade_bounds[OF ax] have "2 powi binade \<bar>x\<bar> \<le> \<bar>x\<bar>" by simp
    with small have "(2::rat) powi binade \<bar>x\<bar> < 2 powi (- 1022)" by simp
    then have "binade \<bar>x\<bar> < - 1022" by (rule powi_less_imp_less)
    then have m: "max (binade \<bar>x\<bar>) (- 1022) = - 1022" by simp
    from to_double_finite[OF \<open>x \<noteq> 0\<close> assms] obtain r where
      r: "to_double x = Fin r" "\<bar>r - x\<bar> \<le> 2 powi (- 1022 - 53)"
      by (auto simp: m)
    have "(2::rat) powi (- 1022 - 53) \<le> 2 powi 0"
      by (intro power_int_increasing) simp_all
    then have "(2::rat) powi (- 1022 - 53) \<le> 1" by simp
    moreover have "0 \<le> \<bar>x\<bar> / 2 ^ 53" by simp
    ultimately show ?thesis using r by (intro exI[of _ r]) linarith
  qed
qed

subsection \<open>Rounding to four decimals, twice\<close>

lemma multiplier: "DECIMAL_MULTIPLIER = Fin 10000"
  by (simp add: DECIMAL_MULTIPLIER_def DECIMAL_PRECISION_def)

lemma round_precision_Fin:
  "round_precision (Fin x) = js_div (Math_round (to_double (x * 10000))) (Fin 10000)"
  by (simp add: round_precision_def multiplier)

lemma abs_near:
  fixes u w d :: rat
  assumes "\<bar>u - w\<bar> \<le> d"
  shows "\<bar>u\<bar> \<le> \<bar>w\<bar> + d" "\<bar>w\<bar> - d \<le> \<bar>u\<bar>"
  using assms by linarith+

text \<open>Rounding a multiple of 1/10000 again gives it back, up to 10^15 + 2 in the numerator.\<close>

lemma reround_scaled_integer:
  assumes "\<bar>n\<bar> \<le> 10 ^ 15 + 2"
  shows "round_precision (to_double (of_int n / 10000)) = to_double (of_int n / 10000)"
proof (cases "n = 0")
  case True
  have z: "to_double 0 = Fin 0" by (simp add: to_double_def)
  have h: "\<lfloor>1 / 2 :: rat\<rfloor> = 0" by (rule floor_unique) simp_all
  show ?thesis using True by (simp add: round_precision_Fin z h)
next
  case False
  define a :: rat where "a = \<bar>of_int n\<bar>"
  have a1: "1 \<le> a" using False by (simp add: a_def)
  have aB: "a \<le> 10 ^ 15 + 2"
  proof -
    have "(of_int \<bar>n\<bar> :: rat) \<le> of_int (10 ^ 15 + 2)"
      using assms by (simp only: of_int_le_iff)
    then show ?thesis by (simp add: a_def)
  qed
  have lo: "2 powi (- 1022) \<le> \<bar>of_int n / 10000 :: rat\<bar>"
  proof -
    have "(2::rat) powi (- 1022) \<le> 2 powi (- 14)"
      by (intro power_int_increasing) simp_all
    also have "\<dots> \<le> 1 / 10000" by (simp add: power_int_minus_divide)
    also have "\<dots> \<le> a / 10000" using a1 by (simp add: divide_right_mono)
    finally show ?thesis by (simp add: a_def)
  qed
  have big: "(10 ^ 15 + 2 :: rat) * 2 < 2 ^ 1023"
  proof -
    have "(10 ^ 15 + 2 :: rat) * 2 < 2 ^ 60" by simp
    also have "\<dots> \<le> 2 ^ 1023" by (intro power_increasing) simp_all
    finally show ?thesis .
  qed
  have hi: "\<bar>of_int n / 10000 :: rat\<bar> < 2 ^ 1023"
  proof -
    have "\<bar>of_int n / 10000 :: rat\<bar> \<le> a" using a1 by (simp add: a_def)
    also have "a \<le> a * 2" using a1 by simp
    also have "\<dots> \<le> (10 ^ 15 + 2) * 2" using aB by simp
    also note big
    finally show ?thesis .
  qed
  from to_double_relative[OF lo hi] obtain y where
    y: "to_double (of_int n / 10000) = Fin y" and ye: "\<bar>y - of_int n / 10000\<bar> \<le> \<bar>of_int n / 10000\<bar> / 2 ^ 53"
    by blast
  have ye': "\<bar>y * 10000 - of_int n\<bar> \<le> a / 2 ^ 53"
  proof -
    have eq: "y * 10000 - of_int n = (y - of_int n / 10000) * 10000"
      by (simp add: algebra_simps)
    have "\<bar>y * 10000 - of_int n\<bar> = \<bar>(y - of_int n / 10000) * 10000\<bar>"
      by (simp only: eq)
    also have "\<dots> = \<bar>y - of_int n / 10000\<bar> * \<bar>10000\<bar>"
      by (rule abs_mult)
    also have "\<dots> = \<bar>y - of_int n / 10000\<bar> * 10000"
      by simp
    also have "\<dots> \<le> (\<bar>of_int n / 10000\<bar> / 2 ^ 53) * 10000"
      using ye by (intro mult_right_mono) simp_all
    also have "\<dots> = a / 2 ^ 53" by (simp add: a_def)
    finally show ?thesis .
  qed
  have ym: "\<bar>y * 10000\<bar> \<le> a + a / 2 ^ 53" "a - a / 2 ^ 53 \<le> \<bar>y * 10000\<bar>"
    using abs_near[OF ye'] by (simp_all only: a_def)
  have lo2: "2 powi (- 1022) \<le> \<bar>y * 10000\<bar>"
  proof -
    have "(2::rat) powi (- 1022) \<le> 2 powi (- 1)"
      by (intro power_int_increasing) simp_all
    also have "\<dots> = 1 / 2" by (simp add: power_int_minus_divide)
    also have "\<dots> \<le> a - a / 2 ^ 53" using a1 by simp
    finally show ?thesis using ym(2) by linarith
  qed
  have hi2: "\<bar>y * 10000\<bar> < 2 ^ 1023"
  proof -
    note ym(1)
    also have "a + a / 2 ^ 53 \<le> a * 2" using a1 by simp
    also have "\<dots> \<le> (10 ^ 15 + 2) * 2" using aB by simp
    also note big
    finally show ?thesis .
  qed
  from to_double_relative[OF lo2 hi2] obtain q where
    q: "to_double (y * 10000) = Fin q" and qe: "\<bar>q - y * 10000\<bar> \<le> \<bar>y * 10000\<bar> / 2 ^ 53"
    by blast
  have "\<bar>y * 10000\<bar> / 2 ^ 53 \<le> (a + a / 2 ^ 53) / 2 ^ 53"
    using ym(1) by (simp add: divide_right_mono)
  with qe ye' have "\<bar>q - of_int n\<bar> \<le> a / 2 ^ 53 + (a + a / 2 ^ 53) / 2 ^ 53"
    by linarith
  also have "\<dots> < 1 / 2"
    using aB by simp
  finally have near: "\<bar>q - of_int n\<bar> < 1 / 2" .
  have "\<lfloor>q + 1 / 2\<rfloor> = n"
    using near by (intro floor_unique) linarith+
  then have "Math_round (to_double (y * 10000)) = Fin (of_int n)"
    by (simp add: q)
  then show ?thesis
    by (simp add: y round_precision_Fin)
qed

lemma round_precision_idempotent_finite:
  assumes "\<bar>x\<bar> \<le> 10 ^ 11"
  shows "round_precision (round_precision (Fin x)) = round_precision (Fin x)"
proof -
  have bx: "\<bar>x * 10000\<bar> \<le> 10 ^ 15"
    using assms by (simp add: abs_mult)
  have "(10 ^ 15 :: rat) < 2 ^ 60" by simp
  also have "\<dots> \<le> 2 ^ 1023" by (intro power_increasing) simp_all
  finally have "(10 ^ 15 :: rat) < 2 ^ 1023" .
  with bx have "\<bar>x * 10000\<bar> < 2 ^ 1023" by (rule order_le_less_trans)
  from to_double_absolute[OF this] obtain p where
    p: "to_double (x * 10000) = Fin p" and pe: "\<bar>p - x * 10000\<bar> \<le> \<bar>x * 10000\<bar> / 2 ^ 53 + 1"
    by blast
  define n where "n = \<lfloor>p + 1 / 2\<rfloor>"
  have "\<bar>x * 10000\<bar> / 2 ^ 53 \<le> 10 ^ 15 / 2 ^ 53"
    using bx by (simp add: divide_right_mono)
  with pe bx have pb: "\<bar>p\<bar> \<le> 10 ^ 15 + 10 ^ 15 / 2 ^ 53 + 1"
    by linarith
  have fl: "of_int n \<le> p + 1 / 2" "p + 1 / 2 < of_int n + 1"
    unfolding n_def by linarith+
  have "\<bar>of_int n :: rat\<bar> \<le> \<bar>p\<bar> + 1 / 2"
    using fl by (simp add: abs_le_iff) linarith
  with pb have "\<bar>of_int n :: rat\<bar> < 10 ^ 15 + 3"
    by simp
  then have "(of_int \<bar>n\<bar> :: rat) < of_int (10 ^ 15 + 3)"
    by simp
  then have "\<bar>n\<bar> < 10 ^ 15 + 3"
    by (simp only: of_int_less_iff)
  then have nb: "\<bar>n\<bar> \<le> 10 ^ 15 + 2" by simp
  have rp: "round_precision (Fin x) = to_double (of_int n / 10000)"
    by (simp add: round_precision_Fin p n_def)
  show ?thesis
    unfolding rp by (rule reround_scaled_integer[OF nb])
qed

lemma round_half_even_at: "\<bar>of_int k - y\<bar> < 1 / 2 \<Longrightarrow> round_half_even y = k"
proof -
  assume a: "\<bar>of_int k - y\<bar> < 1 / 2"
  have f: "of_int \<lfloor>y\<rfloor> \<le> y" "y < of_int \<lfloor>y\<rfloor> + 1" by linarith+
  have "k = \<lfloor>y\<rfloor> \<or> k = \<lfloor>y\<rfloor> + 1"
  proof -
    have "of_int k < y + 1 / 2" "y - 1 / 2 < of_int k" using a by linarith+
    with f have "(of_int k :: rat) < of_int \<lfloor>y\<rfloor> + 2" "(of_int \<lfloor>y\<rfloor> :: rat) - 1 < of_int k"
      by linarith+
    then have "(of_int k :: rat) < of_int (\<lfloor>y\<rfloor> + 2)" "(of_int (\<lfloor>y\<rfloor> - 1) :: rat) < of_int k"
      by simp_all
    then have "k < \<lfloor>y\<rfloor> + 2" "\<lfloor>y\<rfloor> - 1 < k" by (simp_all only: of_int_less_iff)
    then show ?thesis by linarith
  qed
  then show ?thesis
    using a f by (auto simp: round_half_even_def Let_def)
qed

lemma to_double_at:
  assumes "x \<noteq> 0" "2 powi e \<le> \<bar>x\<bar>" "\<bar>x\<bar> < 2 powi (e + 1)" "- 1022 \<le> e" "e \<le> 1022"
    and "\<bar>of_int k - x / 2 powi (e - 52)\<bar> < 1 / 2"
  shows "to_double x = Fin (of_int k * 2 powi (e - 52))"
proof -
  have ax: "0 < \<bar>x\<bar>" using assms(1) by simp
  have b: "binade \<bar>x\<bar> = e" by (rule binade_unique[OF ax assms(2,3)])
  have m: "max e (- 1022) = e" using assms(4) by simp
  have "(2::rat) powi (e + 1) \<le> 2 powi 1023"
    using assms(5) by (intro power_int_increasing) simp_all
  with assms(3) have "\<bar>x\<bar> < 2 ^ 1023" by simp
  from to_double_finite[OF assms(1) this] obtain r where r: "to_double x = Fin r" by blast
  have k: "round_half_even (x / 2 powi (e - 52)) = k"
    by (rule round_half_even_at[OF assms(6)])
  from r show ?thesis
    using assms(1) by (simp add: to_double_def b m k Let_def split: if_splits)
qed

lemma Math_round_at:
  "of_int n \<le> x + 1 / 2 \<Longrightarrow> x + 1 / 2 < of_int n + 1 \<Longrightarrow> Math_round (Fin x) = Fin (of_int n)"
  by (simp add: floor_unique)

lemma round_precision_steps:
  assumes "to_double (x * 10000) = Fin p" "Math_round (Fin p) = Fin n" "to_double (n / 10000) = Fin y"
  shows "round_precision (Fin x) = Fin y"
  using assms by (simp add: round_precision_Fin)

lemma large_strike_first_rounding:
  "round_precision (Fin (2309896329325127 / 8192)) = Fin (4619792658650255 / 16384)"
proof -
  have 1: "to_double (2309896329325127 / 8192 * 10000) = Fin (5639395335266423 / 2)"
    using to_double_at[of "2309896329325127 / 8192 * 10000" 51 5639395335266423]
    by (simp add: power_int_minus_divide)
  have 2: "Math_round (Fin (5639395335266423 / 2)) = Fin 2819697667633212"
    using Math_round_at[of 2819697667633212 "5639395335266423 / 2"] by simp
  have 3: "to_double (2819697667633212 / 10000) = Fin (4619792658650255 / 16384)"
    using to_double_at[of "2819697667633212 / 10000" 38 4619792658650255]
    by (simp add: power_int_minus_divide)
  show ?thesis
    by (rule round_precision_steps[OF 1 2 3])
qed

lemma large_strike_second_rounding:
  "round_precision (Fin (4619792658650255 / 16384)) = Fin (288737041165641 / 1024)"
proof -
  have 1: "to_double (4619792658650255 / 16384 * 10000) = Fin (5639395335266425 / 2)"
    using to_double_at[of "4619792658650255 / 16384 * 10000" 51 5639395335266425]
    by (simp add: power_int_minus_divide)
  have 2: "Math_round (Fin (5639395335266425 / 2)) = Fin 2819697667633213"
    using Math_round_at[of 2819697667633213 "5639395335266425 / 2"] by simp
  have 3: "to_double (2819697667633213 / 10000) = Fin (288737041165641 / 1024)"
    using to_double_at[of "2819697667633213 / 10000" 38 4619792658650256]
    by (simp add: power_int_minus_divide)
  show ?thesis
    by (rule round_precision_steps[OF 1 2 3])
qed

lemma round_precision_idempotent:
  assumes "within_range v"
  shows "round_precision (round_precision v) = round_precision v"
proof (cases v)
  case (Fin x)
  with assms have "\<bar>x\<bar> \<le> 10 ^ 11" by (simp add: within_range_def)
  then show ?thesis unfolding Fin by (rule round_precision_idempotent_finite)
qed (simp_all add: round_precision_def multiplier)

lemma within_range_or_zero: "within_range v \<Longrightarrow> within_range (or_zero v)"
  by (simp add: or_zero_def within_range_def)

lemma cleaned_numeric_fields:
  assumes "cleanedData (validateContract raw) = Some c"
  shows "strike c = round_precision (js_Number (raw_strike raw))"
    "bid c = round_precision (js_Number (raw_bid raw))"
    "ask c = round_precision (js_Number (raw_ask raw))"
    "delta c = round_precision (or_zero (js_Number (raw_delta raw)))"
    "gamma c = round_precision (or_zero (js_Number (raw_gamma raw)))"
    "theta c = round_precision (or_zero (js_Number (raw_theta raw)))"
    "vega c = round_precision (or_zero (js_Number (raw_vega raw)))"
    "rho c = round_precision (or_zero (js_Number (raw_rho raw)))"
  using assms
  by (cases "raw_act_symbol raw"; cases "raw_date raw"; cases "raw_expiration raw";
      auto simp: validateContract_def Let_def split: if_splits sum.splits)+

text \<open>
  Claim C9, as the code has it. The rounding is done in double arithmetic. For every
  accepted row whose numeric fields are not finite or at most \<open>10\<^sup>1\<^sup>1\<close> in magnitude,
  rounding any of the rounded fields of the CleanRecord again leaves it unchanged.
\<close>

theorem rounded_fields_stable_within_range:
  assumes "cleanedData (validateContract raw) = Some c"
    and "numeric_fields_within_range raw"
  shows "round_precision (strike c) = strike c \<and> round_precision (bid c) = bid c \<and>
         round_precision (ask c) = ask c \<and> round_precision (delta c) = delta c \<and>
         round_precision (gamma c) = gamma c \<and> round_precision (theta c) = theta c \<and>
         round_precision (vega c) = vega c \<and> round_precision (rho c) = rho c"
  using assms(2)
  by (simp add: cleaned_numeric_fields[OF assms(1)] numeric_fields_within_range_def
      round_precision_idempotent within_range_or_zero)

lemma large_strike_row_accepted:
  "isValid (validateContract large_strike_row)"
  "map_option strike (cleanedData (validateContract large_strike_row)) =
     Some (round_precision (Fin (2309896329325127 / 8192)))"
  by (simp_all add: validateContract_def large_strike_row_def fractional_volume_row_def Let_def
      sample_dates_valid sample_strings js_Number_def isNaN_def js_le_def js_strict_eq_def)

text \<open>
  Beyond that range the product with \<open>10\<^sup>4\<close> passes \<open>2\<^sup>5\<^sup>1\<close>, where neighbouring doubles
  are half a unit apart: a strike of 281969766763.32117 is rounded to 281969766763.3212,
  and rounding that again gives 281969766763.3213.
\<close>

theorem large_strike_counterexample:
  "isValid (validateContract large_strike_row) \<and>
   map_option strike (cleanedData (validateContract large_strike_row)) =
     Some (Fin (4619792658650255 / 16384)) \<and>
   round_precision (Fin (4619792658650255 / 16384)) = Fin (288737041165641 / 1024) \<and>
   round_precision (Fin (4619792658650255 / 16384)) \<noteq> Fin (4619792658650255 / 16384)"
  by (simp add: large_strike_row_accepted large_strike_first_rounding large_strike_second_rounding)

theorem rounded_fields_stable_within_range_witness:
  "numeric_fields_within_range fractional_volume_row \<and>
   (\<exists>c. cleanedData (validateContract fractional_volume_row) = Some c \<and>
        round_precision (strike c) = strike c \<and> round_precision (rho c) = rho c)"
proof -
  have w: "numeric_fields_within_range fractional_volume_row"
    by (simp add: numeric_fields_within_range_def within_range_def fractional_volume_row_def
        js_Number_def)
  from accepted_has_cleanedData[OF fractional_volume_row_accepted(1)]
  obtain c where c: "cleanedData (validateContract fractional_volume_row) = Some c"
    by blast
  from rounded_fields_stable_within_range[OF c w] c w show ?thesis
    by blast
qed

end
